theory Spec2Isabelle
  imports Complex_Main
begin

section \<open>Process orchestrator (analysis/playwright\_runner.py)\<close>

text \<open>
  \<open>run_playwright_subprocess\<close> spawns the scraper, reads its combined output line by
  line and checks the wall-clock budget after each line it has read. The child is modelled
  by what the parent can observe of it: the lines it writes, each with the time (seconds
  since \<open>start\<close>) at which the blocking read returns it, the time at which its output
  stream reaches end-of-file, the time at which it exits when left alone, and its exit
  code. \<open>None\<close> for a time means "never". The parent's own computation takes no time.
\<close>

record child =
  out_lines :: "(real \<times> string) list"
  closes_at :: "real option"
  exits_at :: "real option"
  exit_code :: int

text \<open>\<open>proc.kill()\<close> at time \<open>now\<close>, followed by the return code the parent finds:
  \<open>Popen.kill\<close> polls first, so a child that has already exited keeps its own code; a
  running one dies of SIGKILL.\<close>

definition kill_returncode :: "child \<Rightarrow> real \<Rightarrow> int" where
  "kill_returncode p now =
     (case exits_at p of
        Some e \<Rightarrow> if e \<le> now then exit_code p else - 9
      | None \<Rightarrow> - 9)"

text \<open>The body of \<open>for line in proc.stdout\<close>: the result is whether the loop left by
  \<open>break\<close> after a kill, the clock, and the log. Python's \<open>timeout and ...\<close> is false for
  \<open>None\<close> and for \<open>0\<close>.\<close>

fun read_lines :: "int option \<Rightarrow> (real \<times> string) list \<Rightarrow> real \<Rightarrow> string list
    \<Rightarrow> bool \<times> real \<times> string list" where
  "read_lines timeout [] now logs = (False, now, logs)"
| "read_lines timeout ((t, line) # rest) now logs =
     (let now' = max now t; logs' = logs @ [line] in
      if (case timeout of None \<Rightarrow> False | Some s \<Rightarrow> s \<noteq> 0 \<and> now' > of_int s)
      then (True, now', logs' @ [''Process killed due to timeout.''])
      else read_lines timeout rest now' logs')"

text \<open>The text of the \<open>TimeoutExpired\<close> raised by \<open>proc.wait(timeout=5)\<close>; \<open>cmd\<close> is the
  printed command list.\<close>

definition wait_expired_text :: "string \<Rightarrow> string" where
  "wait_expired_text cmd =
     ''Exception while running playwright scraper: Command '' @ [CHR 0x27] @ cmd @ [CHR 0x27]
       @ '' timed out after 5 seconds''"

text \<open>
  The whole function: \<open>(returncode, elapsed, logs)\<close>, or \<open>None\<close> when the read loop
  blocks for ever on a stream that never closes. After a kill, \<open>proc.wait\<close> returns at
  once. After end-of-file without a kill, \<open>proc.wait(timeout=5)\<close> returns the exit code
  if the child exits within five seconds; otherwise it raises, the handler kills the child
  without waiting for it, \<open>returncode\<close> is still \<open>None\<close> and \<open>-1\<close> is returned.
\<close>

definition run_playwright_subprocess :: "string \<Rightarrow> child \<Rightarrow> int option
    \<Rightarrow> (int \<times> real \<times> string list) option" where
  "run_playwright_subprocess cmd p timeout =
     (case read_lines timeout (out_lines p) 0 [] of
        (True, now, logs) \<Rightarrow> Some (kill_returncode p now, now, logs)
      | (False, now, logs) \<Rightarrow>
          (case closes_at p of
             None \<Rightarrow> None
           | Some c \<Rightarrow>
               (let now1 = max now c;
                    expired = Some (- 1, now1 + 5, logs @ [wait_expired_text cmd])
                in case exits_at p of
                     Some e \<Rightarrow>
                       if e \<le> now1 + 5 then Some (exit_code p, max now1 e, logs) else expired
                   | None \<Rightarrow> expired)))"

text \<open>A child that sleeps ten seconds, writes nothing and exits with code 0.\<close>

definition sleeper :: child where
  "sleeper = \<lparr>out_lines = [], closes_at = Some 10, exits_at = Some 10, exit_code = 0\<rparr>"

section \<open>Python strings and the Unicode tables\<close>

text \<open>
  A Python \<open>str\<close> is a sequence of Unicode code points. Literals are written as ASCII
  strings and converted with \<open>str\<close>.
\<close>

type_synonym ustr = "nat list"

definition str :: "string \<Rightarrow> ustr" where
  "str s = map of_char s"

text \<open>\<open>str.isspace\<close> on one code point, which is also the class \<open>\s\<close> of \<open>re\<close> on a
  \<open>str\<close> pattern and the set \<open>str.strip()\<close> removes.\<close>

definition isspace :: "nat \<Rightarrow> bool" where
  "isspace c \<longleftrightarrow>
     (0x09 \<le> c \<and> c \<le> 0x0D) \<or> (0x1C \<le> c \<and> c \<le> 0x20) \<or> c = 0x85 \<or> c = 0xA0 \<or>
     c = 0x1680 \<or> (0x2000 \<le> c \<and> c \<le> 0x200A) \<or> c = 0x2028 \<or> c = 0x2029 \<or>
     c = 0x202F \<or> c = 0x205F \<or> c = 0x3000"

text \<open>
  The large tables of the Unicode character database are not part of the repository; the
  functions that consult them take them as a parameter:
  \<^item> \<open>decimal_value\<close>: the value of a code point of category Nd (the class \<open>\d\<close>, and
    the digits \<open>int()\<close> reads), \<open>None\<close> for every other code point;
  \<^item> \<open>isalnum\<close>: \<open>str.isalnum\<close> on one code point (\<open>\w\<close> is this or an underscore);
  \<^item> \<open>str_lower\<close>, \<open>str_title\<close>: \<open>str.lower()\<close> and \<open>str.title()\<close>;
  \<^item> \<open>re_ignorecase p c\<close>: under \<open>re.IGNORECASE\<close> the pattern literal \<open>p\<close> matches the
    text character \<open>c\<close>.
\<close>

record unicode =
  decimal_value :: "nat \<Rightarrow> nat option"
  isalnum :: "nat \<Rightarrow> bool"
  str_lower :: "ustr \<Rightarrow> ustr"
  str_title :: "ustr \<Rightarrow> ustr"
  re_ignorecase :: "nat \<Rightarrow> nat \<Rightarrow> bool"

definition isdecimal :: "unicode \<Rightarrow> nat \<Rightarrow> bool" where
  "isdecimal U c \<longleftrightarrow> decimal_value U c \<noteq> None"

definition isword :: "unicode \<Rightarrow> nat \<Rightarrow> bool" where
  "isword U c \<longleftrightarrow> isalnum U c \<or> c = 0x5F"

definition ascii_lower :: "nat \<Rightarrow> nat" where
  "ascii_lower c = (if 0x41 \<le> c \<and> c \<le> 0x5A then c + 0x20 else c)"

definition ascii_upper :: "nat \<Rightarrow> nat" where
  "ascii_upper c = (if 0x61 \<le> c \<and> c \<le> 0x7A then c - 0x20 else c)"

definition ascii_alpha :: "nat \<Rightarrow> bool" where
  "ascii_alpha c \<longleftrightarrow> (0x41 \<le> c \<and> c \<le> 0x5A) \<or> (0x61 \<le> c \<and> c \<le> 0x7A)"

definition ascii_digit :: "nat \<Rightarrow> bool" where
  "ascii_digit c \<longleftrightarrow> 0x30 \<le> c \<and> c \<le> 0x39"

fun ascii_title :: "bool \<Rightarrow> ustr \<Rightarrow> ustr" where
  "ascii_title prev_cased [] = []"
| "ascii_title prev_cased (c # cs) =
     (if ascii_alpha c
      then (if prev_cased then ascii_lower c else ascii_upper c) # ascii_title True cs
      else c # ascii_title False cs)"

text \<open>The tables cut down to ASCII: what Python computes on ASCII text. Used to run the
  functions on concrete inputs.\<close>

definition ascii_tables :: unicode where
  "ascii_tables =
     \<lparr>decimal_value = (\<lambda>c. if ascii_digit c then Some (c - 0x30) else None),
      isalnum = (\<lambda>c. ascii_digit c \<or> ascii_alpha c),
      str_lower = map ascii_lower,
      str_title = ascii_title False,
      re_ignorecase = (\<lambda>p c. ascii_lower p = ascii_lower c)\<rparr>"

text \<open>
  What the proofs below use of the tables, each a fact of the Unicode database: decimal
  digits are alphanumeric, white space is not, a literal matches itself under
  \<open>IGNORECASE\<close>, on ASCII code points the tables are the ASCII ones, and \<open>str.lower()\<close> maps
  an ASCII stretch of a string to its ASCII lower case wherever it stands.
\<close>

definition unicode_ok :: "unicode \<Rightarrow> bool" where
  "unicode_ok U \<longleftrightarrow>
     (\<forall>c. isdecimal U c \<longrightarrow> isalnum U c) \<and>
     (\<forall>c. isspace c \<longrightarrow> \<not> isalnum U c) \<and>
     (\<forall>p. re_ignorecase U p p) \<and>
     (\<forall>c < 0x80. decimal_value U c = (if ascii_digit c then Some (c - 0x30) else None)) \<and>
     (\<forall>c < 0x80. isalnum U c = (ascii_digit c \<or> ascii_alpha c)) \<and>
     (\<forall>pre w post. (\<forall>c \<in> set w. c < 0x80) \<longrightarrow>
        (\<exists>pre' post'. str_lower U (pre @ w @ post) = pre' @ map ascii_lower w @ post'))"

section \<open>Regular-expression searches\<close>

text \<open>
  \<open>re.search\<close> tries the pattern at each position from the left and returns the first
  match. A pattern is given as a matcher that sees the character before the position
  (for \<open>\b\<close>) and the text from the position on.
\<close>

fun re_search :: "(nat option \<Rightarrow> ustr \<Rightarrow> 'a option) \<Rightarrow> nat option \<Rightarrow> ustr \<Rightarrow> 'a option" where
  "re_search m prev [] = m prev []"
| "re_search m prev (c # cs) =
     (case m prev (c # cs) of Some r \<Rightarrow> Some r | None \<Rightarrow> re_search m (Some c) cs)"

definition first_cp :: "ustr \<Rightarrow> nat option" where
  "first_cp s = (case s of [] \<Rightarrow> None | c # _ \<Rightarrow> Some c)"

text \<open>\<open>\b\<close>: exactly one of the two neighbours is a word character; beyond either end of
  the text there is none.\<close>

definition word_boundary :: "unicode \<Rightarrow> nat option \<Rightarrow> nat option \<Rightarrow> bool" where
  "word_boundary U prev nxt \<longleftrightarrow>
     (case prev of None \<Rightarrow> False | Some c \<Rightarrow> isword U c) \<noteq>
     (case nxt of None \<Rightarrow> False | Some c \<Rightarrow> isword U c)"

text \<open>A literal under \<open>IGNORECASE\<close>: the rest of the text after it, if it matches.\<close>

fun literal_ci :: "unicode \<Rightarrow> ustr \<Rightarrow> ustr \<Rightarrow> ustr option" where
  "literal_ci U [] s = Some s"
| "literal_ci U (p # ps) [] = None"
| "literal_ci U (p # ps) (c # cs) = (if re_ignorecase U p c then literal_ci U ps cs else None)"

text \<open>
  \<open>\bNCT\s*(\d{4,})\b\<close> with \<open>IGNORECASE\<close>, at one position; the result is group 1. Both
  quantifiers are greedy. Giving a character back never opens another match: a white-space
  character is no digit, and between two digits there is no word boundary.
\<close>

definition match_nct :: "unicode \<Rightarrow> nat option \<Rightarrow> ustr \<Rightarrow> ustr option" where
  "match_nct U prev s =
     (if word_boundary U prev (first_cp s)
      then (case literal_ci U (str ''NCT'') s of
              None \<Rightarrow> None
            | Some r0 \<Rightarrow>
                (let r1 = dropWhile isspace r0;
                     d = takeWhile (isdecimal U) r1;
                     r2 = dropWhile (isdecimal U) r1
                 in if 4 \<le> length d \<and> word_boundary U (Some (last d)) (first_cp r2)
                    then Some d else None))
      else None)"

text \<open>\<open>(\d{4})\<close> at one position.\<close>

definition match_digits4 :: "unicode \<Rightarrow> nat option \<Rightarrow> ustr \<Rightarrow> ustr option" where
  "match_digits4 U prev s =
     (if 4 \<le> length s \<and> list_all (isdecimal U) (take 4 s) then Some (take 4 s) else None)"

text \<open>\<open>\b(19|20)\d{2}\b\<close> at one position; the result is group 0, the whole match.\<close>

definition match_year :: "unicode \<Rightarrow> nat option \<Rightarrow> ustr \<Rightarrow> ustr option" where
  "match_year U prev s =
     (if word_boundary U prev (first_cp s)
      then (case s of
              a # b # c # d # r \<Rightarrow>
                if ([a, b] = str ''19'' \<or> [a, b] = str ''20'') \<and> isdecimal U c \<and> isdecimal U d
                   \<and> word_boundary U (Some d) (first_cp r)
                then Some [a, b, c, d] else None
            | _ \<Rightarrow> None)
      else None)"

text \<open>\<open>int(s)\<close> on a non-empty string of decimal digits, the only strings the callers
  pass (a matched group of \<open>\d\<close>), where it cannot raise.\<close>

definition py_int :: "unicode \<Rightarrow> ustr \<Rightarrow> int" where
  "py_int U ds =
     foldl (\<lambda>a c. 10 * a + int (case decimal_value U c of Some v \<Rightarrow> v | None \<Rightarrow> 0)) 0 ds"

section \<open>Text and identifier canonicalization (analysis/playwright\_scraper.py)\<close>

text \<open>\<open>re.sub(r"\s+", " ", s)\<close>: every maximal run of white space becomes one space.\<close>

function sub_spaces :: "ustr \<Rightarrow> ustr" where
  "sub_spaces [] = []"
| "sub_spaces (c # cs) =
     (if isspace c then 0x20 # sub_spaces (dropWhile isspace cs) else c # sub_spaces cs)"
  by pat_completeness auto
termination
  by (relation "measure length") (auto simp: length_dropWhile_le le_imp_less_Suc)

definition strip :: "ustr \<Rightarrow> ustr" where
  "strip s = rev (dropWhile isspace (rev (dropWhile isspace s)))"

text \<open>The class \<open>[\u200B-\u200F]\<close>.\<close>

definition zero_width :: "nat \<Rightarrow> bool" where
  "zero_width c \<longleftrightarrow> 0x200B \<le> c \<and> c \<le> 0x200F"

definition clean_text :: "ustr option \<Rightarrow> ustr option" where
  "clean_text val =
     (case val of
        None \<Rightarrow> None
      | Some s0 \<Rightarrow>
          (let s1 = filter (\<lambda>c. c \<noteq> 0xFEFF) (map (\<lambda>c. if c = 0xA0 then 0x20 else c) s0);
               s2 = filter (\<lambda>c. \<not> zero_width c) s1
           in Some (strip (sub_spaces s2))))"

definition canonical_nct :: "unicode \<Rightarrow> ustr option \<Rightarrow> ustr option" where
  "canonical_nct U val =
     (case clean_text val of
        None \<Rightarrow> None
      | Some s \<Rightarrow>
          if s = [] then None
          else (case re_search (match_nct U) None s of
                  Some d \<Rightarrow> Some (str ''NCT'' @ d)
                | None \<Rightarrow> Some s))"

section \<open>Year extraction\<close>

text \<open>\<open>_extract_year\<close> of analysis/playwright\_scraper.py.\<close>

definition scraper_extract_year :: "unicode \<Rightarrow> ustr option \<Rightarrow> int option" where
  "scraper_extract_year U text =
     (case text of
        None \<Rightarrow> None
      | Some t \<Rightarrow>
          if t = [] then None
          else (case re_search (match_year U) None t of
                  Some m \<Rightarrow> Some (py_int U m)
                | None \<Rightarrow>
                    (case re_search (match_digits4 U) None t of
                       Some m2 \<Rightarrow> Some (py_int U m2)
                     | None \<Rightarrow> None)))"

text \<open>
  \<open>_extract_year\<close> of analysis/api\_client.py. Its argument is the \<open>date\<close> field of the
  service's JSON: absent, a string, or (the case the code provides for) a list, here of
  strings. \<open>str()\<close> of the empty list is \<open>[]\<close>.
\<close>

datatype date_value = Absent | Text ustr | Seq "ustr list"

definition api_extract_year :: "unicode \<Rightarrow> date_value \<Rightarrow> int option" where
  "api_extract_year U v =
     (case v of
        Absent \<Rightarrow> None
      | _ \<Rightarrow>
          (let s = (case v of Text t \<Rightarrow> t | Seq (x # _) \<Rightarrow> x | _ \<Rightarrow> str ''[]'')
           in case re_search (match_digits4 U) None s of
                Some m \<Rightarrow> Some (py_int U m)
              | None \<Rightarrow> None))"

section \<open>Country canonicalization (analysis/geo.py)\<close>

text \<open>Exceptions that the modelled library and browser calls raise.\<close>

datatype error = LookupError | PlaywrightError | OSError





section \<open>Browser pipeline (analysis/playwright\_scraper.py)\<close>

text \<open>Python's truth value of an \<open>Optional[str]\<close>, \<open>a or b\<close>, the substring test
  \<open>sub in s\<close>, and the slice \<open>xs[:m]\<close>, which for a negative \<open>m\<close> drops the last \<open>-m\<close>
  elements.\<close>

definition truthy :: "ustr option \<Rightarrow> bool" where
  "truthy v \<longleftrightarrow> (case v of None \<Rightarrow> False | Some s \<Rightarrow> s \<noteq> [])"

definition py_or :: "ustr option \<Rightarrow> ustr option \<Rightarrow> ustr option" where
  "py_or a b = (if truthy a then a else b)"

fun py_in :: "ustr \<Rightarrow> ustr \<Rightarrow> bool" where
  "py_in sub [] \<longleftrightarrow> sub = []"
| "py_in sub (c # cs) \<longleftrightarrow> take (length sub) (c # cs) = sub \<or> py_in sub cs"

definition slice_to :: "int \<Rightarrow> 'a list \<Rightarrow> 'a list" where
  "slice_to m xs = (if 0 \<le> m then take (nat m) xs else take (nat (int (length xs) + m)) xs)"

subsection \<open>The results list\<close>

text \<open>The object the page script returns for one \<open>.nct-id\<close> element, and the dictionary
  \<open>_pairs_from_search_page\<close> makes of it. A \<open>trial\<close> is an output record.\<close>

record raw_item =
  raw_nct :: "ustr option"
  raw_url :: "ustr option"
  raw_country :: "ustr option"
  raw_briefTitle :: "ustr option"

record item =
  nctId :: "ustr option"
  briefTitle :: "ustr option"
  country :: "ustr option"

record candidate = item +
  url :: "ustr option"

record trial = item +
  startYear :: "int option"

text \<open>
  What the browser shows is the input of the model. One rendering of the results list:
  whether \<open>wait_for_selector(".nct-id")\<close> returns in time, what \<open>eval_on_selector_all\<close>
  returns (\<open>None\<close>: it raises), and the Next control: whether \<open>query_selector\<close> raises,
  finds nothing, or finds a button, with what \<open>get_attribute("aria-disabled")\<close> gives and
  whether \<open>click\<close> succeeds.
\<close>

datatype attribute = AttrRaises | Attr "ustr option"

datatype next_control = QueryRaises | NoButton | Button attribute bool

record search_view =
  selector_found :: bool
  evaluated :: "raw_item list option"
  next_button :: next_control

definition pairs_from_search_page :: "unicode \<Rightarrow> search_view \<Rightarrow> candidate list" where
  "pairs_from_search_page U v =
     (if \<not> selector_found v then []
      else map (\<lambda>r. \<lparr>nctId = canonical_nct U (raw_nct r),
                      briefTitle = clean_text (raw_briefTitle r),
                      country = clean_text (raw_country r),
                      url = raw_url r\<rparr>)
             (case evaluated v of None \<Rightarrow> [] | Some raw \<Rightarrow> raw))"

subsection \<open>The detail view\<close>

text \<open>
  What a detail page gives to each query of \<open>_extract_title_and_start_year\<close>; \<open>None\<close>
  when the query finds no element, times out or raises, all of which the function treats
  alike: the text of \<open>h2.brief-title\<close>, the \<open>content\<close> of the two \<open>meta\<close> elements, the
  document title, the text of \<open>main h1\<close> and of \<open>h1\<close>, and the inner text of the first
  overview item.
\<close>

record detail_view =
  h2_brief_title :: "ustr option"
  og_title :: "ustr option"
  twitter_title :: "ustr option"
  page_title :: "ustr option"
  main_h1 :: "ustr option"
  first_h1 :: "ustr option"
  overview_text :: "ustr option"

text \<open>\<open>_meta_content\<close>: the cleaned value, \<open>None\<close> when that is empty.\<close>

definition meta_content :: "ustr option \<Rightarrow> ustr option" where
  "meta_content v = (let c = clean_text v in if truthy c then c else None)"

text \<open>
  \<open>re.sub(r"\s+-\s+LIT\s*$", "", s, flags=re.IGNORECASE).strip()\<close> for a literal \<open>LIT\<close>
  that ends in a non-space character. A match runs to the end of \<open>s\<close>, so the text is read
  from its end: trailing white space, the literal, white space, a hyphen, white space. The
  leftmost match takes all the white space before the hyphen; what \<open>strip\<close> is applied to
  is the text before it, or all of \<open>s\<close> when there is no match.
\<close>

definition strip_site_suffix :: "unicode \<Rightarrow> ustr \<Rightarrow> ustr \<Rightarrow> ustr" where
  "strip_site_suffix U lit s =
     strip
       (case literal_ci U (rev lit) (dropWhile isspace (rev s)) of
          None \<Rightarrow> s
        | Some r1 \<Rightarrow>
            (case dropWhile isspace r1 of
               c # r3 \<Rightarrow>
                 if r1 \<noteq> [] \<and> isspace (hd r1) \<and> c = 0x2D \<and> r3 \<noteq> [] \<and> isspace (hd r3)
                 then rev (dropWhile isspace r3) else s
             | [] \<Rightarrow> s))"

definition extract_title_and_start_year :: "unicode \<Rightarrow> detail_view \<Rightarrow> ustr option \<times> int option" where
  "extract_title_and_start_year U dv =
     (let t1 = clean_text (h2_brief_title dv);
          t2 = (if \<not> truthy t1
                then py_or (meta_content (og_title dv)) (meta_content (twitter_title dv))
                else t1);
          t3 = (case t2 of
                  Some s \<Rightarrow> if s \<noteq> [] then Some (strip_site_suffix U (str ''ClinicalTrials.gov'') s)
                            else t2
                | None \<Rightarrow> t2);
          t4 = (if \<not> truthy t3
                then (case clean_text (page_title dv) of
                        Some p \<Rightarrow>
                          (let p' = (if p \<noteq> []
                                     then strip_site_suffix U (str ''Full Text View'')
                                            (strip_site_suffix U (str ''ClinicalTrials.gov'') p)
                                     else p)
                           in if p' \<noteq> [] then Some p' else None)
                      | None \<Rightarrow> None)
                else t3);
          t5 = (if \<not> truthy t4
                then (case py_or (clean_text (main_h1 dv)) (clean_text (first_h1 dv)) of
                        Some t \<Rightarrow>
                          if t \<noteq> [] \<and> \<not> py_in (str ''clinicaltrials'') (str_lower U t)
                          then Some t else t4
                      | None \<Rightarrow> t4)
                else t4);
          start_year = (case overview_text dv of
                          None \<Rightarrow> None
                        | Some t \<Rightarrow> scraper_extract_year U (clean_text (Some t)))
      in (t5, start_year))"

subsection \<open>The run\<close>

text \<open>
  A site, for one query: whether the browser starts and reaches the results list, the
  renderings of the list in the order the pagination loop sees them (a successful click on
  Next leads from one to the next), the detail page behind each URL (or the failure of the
  navigation to it), and whether the output file can be written.
\<close>

datatype detail_result = NavigationRaises | Loaded detail_view

record site =
  opens :: bool
  views :: "nat \<Rightarrow> search_view"
  detail :: "ustr \<Rightarrow> detail_result"
  writable :: bool

text \<open>A line \<open>WARN_TITLE_NONE nctId=... url=...\<close> on standard output, by its two values;
  the only line \<open>scrape\<close> itself prints.\<close>

datatype diagnostic = WARN_TITLE_NONE ustr ustr

text \<open>What a run that returns leaves: the returned count, the records written to the
  output file, one per line, and the diagnostics printed.\<close>

record run =
  returned :: int
  artifact :: "trial list"
  printed :: "diagnostic list"

text \<open>The \<open>for\<close> loop over one rendering: candidates without an identifier or with one
  already seen are skipped; the loop breaks when \<open>max_results\<close> pairs are collected.\<close>

fun collect_page :: "int \<Rightarrow> candidate list \<Rightarrow> candidate list \<Rightarrow> ustr set
    \<Rightarrow> candidate list \<times> ustr set" where
  "collect_page m [] pairs seen = (pairs, seen)"
| "collect_page m (it # its) pairs seen =
     (case nctId it of
        None \<Rightarrow> collect_page m its pairs seen
      | Some nct \<Rightarrow>
          if nct = [] \<or> nct \<in> seen then collect_page m its pairs seen
          else (let pairs' = pairs @ [it]; seen' = insert nct seen in
                if m \<le> int (length pairs') then (pairs', seen')
                else collect_page m its pairs' seen'))"

text \<open>\<open>aria_disabled and aria_disabled.lower() == "true"\<close>; an exception while reading the
  attribute is passed over.\<close>

definition reports_disabled :: "unicode \<Rightarrow> attribute \<Rightarrow> bool" where
  "reports_disabled U a =
     (case a of
        AttrRaises \<Rightarrow> False
      | Attr v \<Rightarrow> truthy v \<and> (case v of Some s \<Rightarrow> str_lower U s = str ''true'' | None \<Rightarrow> False))"

text \<open>The \<open>while\<close> loop, at the \<open>k\<close>-th rendering. Nothing bounds the number of
  renderings, so the loop need not end: the result \<open>None\<close> is a run that never returns.\<close>

partial_function (option) paginate :: "unicode \<Rightarrow> (nat \<Rightarrow> search_view) \<Rightarrow> int \<Rightarrow> nat
    \<Rightarrow> candidate list \<Rightarrow> ustr set \<Rightarrow> (error + candidate list) option" where
  "paginate U vs m k pairs seen =
     (if int (length pairs) < m
      then (case collect_page m (pairs_from_search_page U (vs k)) pairs seen of
              (pairs', seen') \<Rightarrow>
                if m \<le> int (length pairs') then Some (Inr pairs')
                else (case next_button (vs k) of
                        QueryRaises \<Rightarrow> Some (Inl PlaywrightError)
                      | NoButton \<Rightarrow> Some (Inr pairs')
                      | Button aria click_ok \<Rightarrow>
                          if reports_disabled U aria then Some (Inr pairs')
                          else if \<not> click_ok then Some (Inr pairs')
                          else paginate U vs m (Suc k) pairs' seen'))
      else Some (Inr pairs))"

text \<open>The second \<open>for\<close> loop, over the collected pairs: \<open>records\<close> and the printed lines
  grow; a navigation that raises leaves the function through the \<open>finally\<close> block.\<close>

fun visit :: "unicode \<Rightarrow> (ustr \<Rightarrow> detail_result) \<Rightarrow> candidate list \<Rightarrow> trial list
    \<Rightarrow> diagnostic list \<Rightarrow> error + trial list \<times> diagnostic list" where
  "visit U dt [] records out = Inr (records, out)"
| "visit U dt (it # its) records out =
     (case (nctId it, url it) of
        (Some nct_id, Some u) \<Rightarrow>
          if nct_id = [] \<or> u = [] then visit U dt its records out
          else (case dt u of
                  NavigationRaises \<Rightarrow> Inl PlaywrightError
                | Loaded dv \<Rightarrow>
                    (case extract_title_and_start_year U dv of
                       (brief_title, start_year) \<Rightarrow>
                         if (case brief_title of
                               Some t \<Rightarrow> t \<noteq> [] \<and> py_in (str ''unknown status'') (str_lower U t)
                             | None \<Rightarrow> False)
                         then visit U dt its records out
                         else (let final_title = py_or brief_title (briefTitle it) in
                               visit U dt its
                                 (records @ [\<lparr>nctId = nctId it, briefTitle = final_title,
                                              country = country it, startYear = start_year\<rparr>])
                                 (if \<not> truthy final_title
                                  then out @ [WARN_TITLE_NONE nct_id u] else out))))
      | _ \<Rightarrow> visit U dt its records out)"

definition scrape :: "unicode \<Rightarrow> site \<Rightarrow> int \<Rightarrow> (error + run) option" where
  "scrape U S max_results =
     (if \<not> opens S then Some (Inl PlaywrightError)
      else (case paginate U (views S) max_results 0 [] {} of
              None \<Rightarrow> None
            | Some (Inl e) \<Rightarrow> Some (Inl e)
            | Some (Inr pairs) \<Rightarrow>
                (case visit U (detail S) (slice_to max_results pairs) [] [] of
                   Inl e \<Rightarrow> Some (Inl e)
                 | Inr (records, out) \<Rightarrow>
                     if \<not> writable S then Some (Inl OSError)
                     else Some (Inr \<lparr>returned = int (length (slice_to max_results records)),
                                     artifact = slice_to max_results records,
                                     printed = out\<rparr>))))"

subsection \<open>A small site to run the pipeline on\<close>

text \<open>
  Two renderings of the results list. The first holds trial 1, trial 2 (whose element has
  no link, so no URL) and trial 1 again; its Next button works. The second holds trial 3,
  whose list title carries the status marker and whose detail page yields no title, and
  trial 4, whose detail page shows the marker in its title; it has no Next button.
\<close>

definition demo_raw :: "string \<Rightarrow> string option \<Rightarrow> string option \<Rightarrow> raw_item" where
  "demo_raw n u t =
     \<lparr>raw_nct = Some (str n), raw_url = map_option str u, raw_country = None,
      raw_briefTitle = map_option str t\<rparr>"

definition demo_views :: "nat \<Rightarrow> search_view" where
  "demo_views k =
     (if k = 0
      then \<lparr>selector_found = True,
            evaluated = Some [demo_raw ''NCT00000001'' (Some ''/study/1'') (Some ''Trial A''),
                              demo_raw ''NCT00000002'' None None,
                              demo_raw ''nct 00000001'' (Some ''/study/1'') (Some ''Trial A'')],
            next_button = Button (Attr None) True\<rparr>
      else \<lparr>selector_found = True,
            evaluated = Some [demo_raw ''NCT00000003'' (Some ''/study/3'')
                                (Some ''Trial C (Unknown status)''),
                              demo_raw ''NCT00000004'' (Some ''/study/4'') (Some ''Trial D'')],
            next_button = NoButton\<rparr>)"

definition demo_page :: "string option \<Rightarrow> string option \<Rightarrow> detail_view" where
  "demo_page h2 overview =
     \<lparr>h2_brief_title = map_option str h2, og_title = None, twitter_title = None,
      page_title = None, main_h1 = None, first_h1 = None,
      overview_text = map_option str overview\<rparr>"

definition demo_detail :: "ustr \<Rightarrow> detail_result" where
  "demo_detail u =
     (if u = str ''/study/1'' then Loaded (demo_page (Some ''Trial A'') (Some ''March 2014''))
      else if u = str ''/study/3'' then Loaded (demo_page None None)
      else if u = str ''/study/4'' then Loaded (demo_page (Some ''Trial D [UNKNOWN STATUS]'') None)
      else NavigationRaises)"

definition demo_site :: site where
  "demo_site = \<lparr>opens = True, views = demo_views, detail = demo_detail, writable = True\<rparr>"

definition demo_candidate :: "string \<Rightarrow> string option \<Rightarrow> string option \<Rightarrow> candidate" where
  "demo_candidate n t u =
     \<lparr>nctId = Some (str n), briefTitle = map_option str t, country = None, url = map_option str u\<rparr>"

definition demo_trial :: "string \<Rightarrow> string \<Rightarrow> int option \<Rightarrow> trial" where
  "demo_trial n t y =
     \<lparr>nctId = Some (str n), briefTitle = Some (str t), country = None, startYear = y\<rparr>"

section \<open>What the patterns match, stated without the matcher\<close>

text \<open>
  The searches above are programs. The properties below compare them with the patterns
  read as descriptions of text: a pattern matches \<open>s\<close> after the prefix \<open>pre\<close> when the
  rest of \<open>s\<close> splits into the pieces the pattern names, whichever way a matcher would find
  the split.
\<close>

definition last_cp :: "ustr \<Rightarrow> nat option" where
  "last_cp s = (if s = [] then None else Some (last s))"

text \<open>The character before the position reached after \<open>pre\<close>, when the search started with
  \<open>prev\<close> before the text.\<close>

definition prev_of :: "nat option \<Rightarrow> ustr \<Rightarrow> nat option" where
  "prev_of prev pre = (if pre = [] then prev else Some (last pre))"

text \<open>\<open>\bNCT\s*(\d{4,})\b\<close> at the start of \<open>s\<close>, with group 1 equal to \<open>d\<close>: three
  characters that match N, C, T without regard to case, any white space, the digits \<open>d\<close>,
  at least four, and a word boundary on both sides.\<close>

definition nct_at :: "unicode \<Rightarrow> nat option \<Rightarrow> ustr \<Rightarrow> ustr \<Rightarrow> bool" where
  "nct_at U prev s d \<longleftrightarrow>
     (\<exists>n ws post. s = n @ ws @ d @ post \<and> list_all2 (re_ignorecase U) (str ''NCT'') n \<and>
        list_all isspace ws \<and> list_all (isdecimal U) d \<and> 4 \<le> length d \<and>
        word_boundary U prev (first_cp s) \<and> word_boundary U (Some (last d)) (first_cp post))"

definition nct_match :: "unicode \<Rightarrow> ustr \<Rightarrow> ustr \<Rightarrow> ustr \<Rightarrow> bool" where
  "nct_match U s pre d \<longleftrightarrow> (\<exists>rest. s = pre @ rest \<and> nct_at U (last_cp pre) rest d)"

text \<open>\<open>(\d{4})\<close>: four decimal digits in a row, \<open>m\<close>, after \<open>pre\<close>.\<close>

definition digits4_match :: "unicode \<Rightarrow> ustr \<Rightarrow> ustr \<Rightarrow> ustr \<Rightarrow> bool" where
  "digits4_match U s pre m \<longleftrightarrow>
     (\<exists>post. s = pre @ m @ post \<and> length m = 4 \<and> list_all (isdecimal U) m)"

text \<open>\<open>\b(19|20)\d{2}\b\<close>: a four-character token \<open>m\<close> after \<open>pre\<close> that starts with 19 or
  20, ends in two decimal digits and has a word boundary on both sides.\<close>

definition year_match :: "unicode \<Rightarrow> ustr \<Rightarrow> ustr \<Rightarrow> ustr \<Rightarrow> bool" where
  "year_match U s pre m \<longleftrightarrow>
     (\<exists>post. s = pre @ m @ post \<and> length m = 4 \<and>
        (take 2 m = str ''19'' \<or> take 2 m = str ''20'') \<and> list_all (isdecimal U) (drop 2 m) \<and>
        word_boundary U (last_cp pre) (first_cp m) \<and>
        word_boundary U (last_cp m) (first_cp post))"

text \<open>The shape of a cleaned text: every white-space character is a single U+0020 between
  two other characters, and none of the characters \<open>_clean_text\<close> removes is left.\<close>

fun single_spaced :: "ustr \<Rightarrow> bool" where
  "single_spaced [] = True"
| "single_spaced (c # cs) =
     ((isspace c \<longrightarrow> c = 0x20 \<and> (case cs of [] \<Rightarrow> True | d # _ \<Rightarrow> \<not> isspace d)) \<and> single_spaced cs)"

definition trimmed :: "ustr \<Rightarrow> bool" where
  "trimmed s \<longleftrightarrow> (s = [] \<or> (\<not> isspace (hd s) \<and> \<not> isspace (last s)))"

definition no_invisible :: "ustr \<Rightarrow> bool" where
  "no_invisible s \<longleftrightarrow> (\<forall>c \<in> set s. c \<noteq> 0xA0 \<and> c \<noteq> 0xFEFF \<and> \<not> zero_width c)"


section \<open>Notions used to state and prove the properties of a run\<close>

text \<open>The state of the pagination loop: the identifiers of the pairs collected so far are
  non-empty and pairwise distinct, and \<open>seen\<close> is exactly their set.\<close>

definition deduplicated :: "candidate list \<Rightarrow> ustr set \<Rightarrow> bool" where
  "deduplicated pairs seen \<longleftrightarrow>
     distinct (map nctId pairs) \<and> (\<forall>c \<in> set pairs. truthy (nctId c)) \<and>
     seen = {n. Some n \<in> nctId ` set pairs}"

text \<open>A rendering from which the pagination loop goes on to the next one: it has a Next
  button that does not report itself disabled and whose click succeeds.\<close>

definition advances :: "unicode \<Rightarrow> search_view \<Rightarrow> bool" where
  "advances U v \<longleftrightarrow>
     (case next_button v of
        Button aria click_ok \<Rightarrow> \<not> reports_disabled U aria \<and> click_ok
      | _ \<Rightarrow> False)"

text \<open>The test of the detail loop on the title the detail view gave.\<close>

definition title_excluded :: "unicode \<Rightarrow> ustr option \<Rightarrow> bool" where
  "title_excluded U brief_title \<longleftrightarrow>
     (case brief_title of
        Some t \<Rightarrow> t \<noteq> [] \<and> py_in (str ''unknown status'') (str_lower U t)
      | None \<Rightarrow> False)"

text \<open>The candidates for which the detail loop appends a record: identifier and URL are
  present and non-empty, the detail page loads, and its title is not excluded.\<close>

definition emits :: "unicode \<Rightarrow> (ustr \<Rightarrow> detail_result) \<Rightarrow> candidate \<Rightarrow> bool" where
  "emits U dt c \<longleftrightarrow>
     (case (nctId c, url c) of
        (Some n, Some u) \<Rightarrow>
          n \<noteq> [] \<and> u \<noteq> [] \<and>
          (case dt u of
             NavigationRaises \<Rightarrow> False
           | Loaded dv \<Rightarrow> \<not> title_excluded U (fst (extract_title_and_start_year U dv)))
      | _ \<Rightarrow> False)"

section \<open>The Unicode tables and the regular-expression searches: lemmas\<close>

lemma ascii_tables_ok: "unicode_ok ascii_tables"
  unfolding unicode_ok_def
proof (intro conjI allI impI)
  fix c assume "isdecimal ascii_tables c"
  then show "isalnum ascii_tables c"
    by (simp add: isdecimal_def ascii_tables_def split: if_splits)
next
  fix c assume "isspace c"
  then show "\<not> isalnum ascii_tables c"
    by (auto simp: isspace_def ascii_tables_def ascii_digit_def ascii_alpha_def)
next
  fix p show "re_ignorecase ascii_tables p p" by (simp add: ascii_tables_def)
next
  fix c :: nat
  show "decimal_value ascii_tables c = (if ascii_digit c then Some (c - 0x30) else None)"
    by (simp add: ascii_tables_def)
  show "isalnum ascii_tables c = (ascii_digit c \<or> ascii_alpha c)"
    by (simp add: ascii_tables_def)
next
  fix pre w post :: ustr
  have "str_lower ascii_tables (pre @ w @ post)
      = map ascii_lower pre @ map ascii_lower w @ map ascii_lower post"
    by (simp add: ascii_tables_def)
  then show "\<exists>pre' post'. str_lower ascii_tables (pre @ w @ post) = pre' @ map ascii_lower w @ post'"
    by blast
qed

lemma ok_decimal_word: "unicode_ok U \<Longrightarrow> isdecimal U c \<Longrightarrow> isword U c"
  by (simp add: unicode_ok_def isword_def)

lemma ok_decimal_not_space: "unicode_ok U \<Longrightarrow> isdecimal U c \<Longrightarrow> \<not> isspace c"
  by (auto simp: unicode_ok_def)

lemma ok_alnum_ascii: "unicode_ok U \<Longrightarrow> c < 0x80 \<Longrightarrow> isalnum U c = (ascii_digit c \<or> ascii_alpha c)"
  by (simp add: unicode_ok_def)

lemma ok_ci_refl: "unicode_ok U \<Longrightarrow> re_ignorecase U p p"
  by (simp add: unicode_ok_def)

lemma ok_decimal_ascii:
  "unicode_ok U \<Longrightarrow> c < 0x80 \<Longrightarrow> decimal_value U c = (if ascii_digit c then Some (c - 0x30) else None)"
  by (simp add: unicode_ok_def)

lemma ok_isdecimal_ascii: "unicode_ok U \<Longrightarrow> c < 0x80 \<Longrightarrow> isdecimal U c = ascii_digit c"
  by (simp add: isdecimal_def ok_decimal_ascii)

lemma ok_isword_ascii:
  "unicode_ok U \<Longrightarrow> c < 0x80 \<Longrightarrow> isword U c = (ascii_digit c \<or> ascii_alpha c \<or> c = 0x5F)"
  by (simp add: isword_def ok_alnum_ascii)

text \<open>The definitions unfolded to run the functions on a concrete input.\<close>

lemmas eval_defs = str_def isspace_def zero_width_def isdecimal_def isword_def ascii_lower_def
  ascii_upper_def ascii_alpha_def ascii_digit_def ascii_tables_def first_cp_def last_cp_def
  word_boundary_def match_nct_def match_digits4_def match_year_def py_int_def strip_def
  clean_text_def canonical_nct_def scraper_extract_year_def api_extract_year_def

lemma str_NCT: "str ''NCT'' = [78, 67, 84]"
  by (simp add: str_def)

subsection \<open>\<open>re.search\<close> returns the leftmost match\<close>

lemma prev_of_Nil: "prev_of prev [] = prev"
  by (simp add: prev_of_def)

lemma prev_of_Cons: "prev_of prev (c # pre) = prev_of (Some c) pre"
  by (simp add: prev_of_def)

lemma prev_of_None: "prev_of None pre = last_cp pre"
  by (simp add: prev_of_def last_cp_def)

lemma re_search_SomeD:
  "re_search m prev s = Some r \<Longrightarrow>
   \<exists>pre rest. s = pre @ rest \<and> m (prev_of prev pre) rest = Some r \<and>
     (\<forall>pre' rest'. s = pre' @ rest' \<and> length pre' < length pre \<longrightarrow> m (prev_of prev pre') rest' = None)"
proof (induction s arbitrary: prev)
  case Nil
  then have "m (prev_of prev []) [] = Some r" by (simp add: prev_of_Nil)
  then show ?case by fastforce
next
  case (Cons c cs)
  show ?case
  proof (cases "m prev (c # cs)")
    case (Some r')
    with Cons.prems have "m (prev_of prev []) (c # cs) = Some r" by (simp add: prev_of_Nil)
    then show ?thesis by fastforce
  next
    case None
    with Cons.prems have "re_search m (Some c) cs = Some r" by simp
    from Cons.IH[OF this] obtain pre rest where cs: "cs = pre @ rest"
      and hit: "m (prev_of (Some c) pre) rest = Some r"
      and early: "\<And>pre' rest'. cs = pre' @ rest' \<Longrightarrow> length pre' < length pre
                    \<Longrightarrow> m (prev_of (Some c) pre') rest' = None"
      by blast
    have "\<forall>pre' rest'. c # cs = pre' @ rest' \<and> length pre' < length (c # pre)
            \<longrightarrow> m (prev_of prev pre') rest' = None"
    proof (intro allI impI)
      fix pre' rest' assume a: "c # cs = pre' @ rest' \<and> length pre' < length (c # pre)"
      show "m (prev_of prev pre') rest' = None"
      proof (cases pre')
        case Nil
        with a None show ?thesis by (simp add: prev_of_Nil)
      next
        case (Cons c' p)
        with a have "cs = p @ rest'" "length p < length pre" "c' = c" by auto
        with early[of p rest'] Cons show ?thesis by (simp add: prev_of_Cons)
      qed
    qed
    moreover have "c # cs = (c # pre) @ rest" using cs by simp
    moreover have "m (prev_of prev (c # pre)) rest = Some r" using hit by (simp add: prev_of_Cons)
    ultimately show ?thesis by blast
  qed
qed

lemma re_search_NoneD:
  "re_search m prev s = None \<Longrightarrow> s = pre @ rest \<Longrightarrow> m (prev_of prev pre) rest = None"
proof (induction s arbitrary: prev pre)
  case Nil
  then show ?case by (simp add: prev_of_Nil)
next
  case (Cons c cs)
  from Cons.prems(1) have here: "m prev (c # cs) = None" and later: "re_search m (Some c) cs = None"
    by (auto split: option.splits)
  show ?case
  proof (cases pre)
    case Nil
    with Cons.prems(2) here show ?thesis by (simp add: prev_of_Nil)
  next
    case (Cons c' p)
    with Cons.prems(2) have "cs = p @ rest" and "c' = c" by simp_all
    from Cons.IH[OF later this(1)] Cons this(2) show ?thesis by (simp add: prev_of_Cons)
  qed
qed

lemma re_search_SomeI:
  assumes "s = pre @ rest" and "m (prev_of prev pre) rest = Some r"
    and "\<And>pre' rest'. s = pre' @ rest' \<Longrightarrow> length pre' < length pre
           \<Longrightarrow> m (prev_of prev pre') rest' = None"
  shows "re_search m prev s = Some r"
proof (cases "re_search m prev s")
  case None
  from re_search_NoneD[OF None assms(1)] assms(2) show ?thesis by simp
next
  case (Some r')
  from re_search_SomeD[OF Some] obtain pre2 rest2 where s2: "s = pre2 @ rest2"
    and hit: "m (prev_of prev pre2) rest2 = Some r'"
    and early: "\<And>pre' rest'. s = pre' @ rest' \<Longrightarrow> length pre' < length pre2
                    \<Longrightarrow> m (prev_of prev pre') rest' = None"
    by blast
  have "\<not> length pre < length pre2" using early[OF assms(1)] assms(2) by auto
  moreover have "\<not> length pre2 < length pre" using assms(3)[OF s2] hit by auto
  ultimately have "length pre = length pre2" by simp
  with assms(1) s2 have "pre = pre2" "rest = rest2" by auto
  with hit assms(2) Some show ?thesis by simp
qed

lemma re_search_NoneI:
  assumes "\<And>pre rest. s = pre @ rest \<Longrightarrow> m (prev_of prev pre) rest = None"
  shows "re_search m prev s = None"
proof (cases "re_search m prev s")
  case None
  then show ?thesis .
next
  case (Some r)
  from re_search_SomeD[OF Some] assms show ?thesis by fastforce
qed

subsection \<open>The greedy matchers find exactly the matches of their patterns\<close>

lemma literal_ci_SomeD:
  "literal_ci U p s = Some r \<Longrightarrow> \<exists>n. s = n @ r \<and> list_all2 (re_ignorecase U) p n"
proof (induction U p s rule: literal_ci.induct)
  case (1 U s)
  then show ?case by simp
next
  case (2 U p ps)
  then show ?case by simp
next
  case (3 U p ps c cs)
  then have ci: "re_ignorecase U p c" and "literal_ci U ps cs = Some r" by (auto split: if_splits)
  from 3(1)[OF this] obtain n where "cs = n @ r" "list_all2 (re_ignorecase U) ps n" by blast
  with ci have "c # cs = (c # n) @ r \<and> list_all2 (re_ignorecase U) (p # ps) (c # n)" by simp
  then show ?case by blast
qed

lemma literal_ci_SomeI:
  "list_all2 (re_ignorecase U) p n \<Longrightarrow> literal_ci U p (n @ r) = Some r"
  by (induction p n rule: list_all2_induct) auto

lemma match_nct_SomeD:
  assumes "match_nct U prev s = Some d"
  shows "nct_at U prev s d"
proof -
  from assms have b1: "word_boundary U prev (first_cp s)"
    by (auto simp: match_nct_def split: if_splits)
  with assms obtain r0 where r0: "literal_ci U (str ''NCT'') s = Some r0"
    by (auto simp: match_nct_def split: option.splits)
  define r1 where "r1 = dropWhile isspace r0"
  from assms b1 r0 have d: "d = takeWhile (isdecimal U) r1"
    and len: "4 \<le> length d"
    and b2: "word_boundary U (Some (last d)) (first_cp (dropWhile (isdecimal U) r1))"
    by (auto simp: match_nct_def Let_def r1_def split: if_splits)
  from literal_ci_SomeD[OF r0] obtain n where n: "s = n @ r0"
    "list_all2 (re_ignorecase U) (str ''NCT'') n" by blast
  have "r0 = takeWhile isspace r0 @ r1" by (simp add: r1_def)
  moreover have "r1 = d @ dropWhile (isdecimal U) r1" by (simp add: d)
  ultimately have "s = n @ takeWhile isspace r0 @ d @ dropWhile (isdecimal U) r1"
    using n(1) by simp
  moreover have "list_all isspace (takeWhile isspace r0)"
    by (simp add: list_all_iff) (meson set_takeWhileD)
  moreover have "list_all (isdecimal U) d"
    unfolding d by (simp add: list_all_iff) (meson set_takeWhileD)
  ultimately show ?thesis
    unfolding nct_at_def using n(2) len b1 b2 by blast
qed

lemma match_nct_SomeI:
  assumes ok: "unicode_ok U" and "nct_at U prev s d"
  shows "match_nct U prev s = Some d"
proof -
  from assms(2) obtain n ws post where s: "s = n @ ws @ d @ post"
    and n: "list_all2 (re_ignorecase U) (str ''NCT'') n"
    and ws: "list_all isspace ws" and d: "list_all (isdecimal U) d" and len: "4 \<le> length d"
    and b1: "word_boundary U prev (first_cp s)"
    and b2: "word_boundary U (Some (last d)) (first_cp post)"
    unfolding nct_at_def by blast
  from len have dne: "d \<noteq> []" by auto
  with d have hd: "isdecimal U (hd d)" and ld: "isdecimal U (last d)"
    by (auto simp: list_all_iff)
  have lit: "literal_ci U (str ''NCT'') s = Some (ws @ d @ post)"
    unfolding s by (rule literal_ci_SomeI[OF n])
  have "dropWhile isspace (ws @ d @ post) = dropWhile isspace (d @ post)"
    using ws by (simp add: list_all_iff dropWhile_append2)
  also have "\<dots> = d @ post"
    using dne hd ok_decimal_not_space[OF ok] by (cases d) auto
  finally have r1: "dropWhile isspace (ws @ d @ post) = d @ post" .
  have pn: "post = [] \<or> \<not> isdecimal U (hd post)"
  proof (cases post)
    case Nil
    then show ?thesis by simp
  next
    case (Cons c cs)
    with b2 ok_decimal_word[OF ok ld] have "\<not> isword U c"
      by (simp add: word_boundary_def first_cp_def)
    with ok_decimal_word[OF ok] Cons show ?thesis by auto
  qed
  have tw: "takeWhile (isdecimal U) (d @ post) = d"
    using d pn by (cases post) (auto simp: list_all_iff takeWhile_append2)
  have dw: "dropWhile (isdecimal U) (d @ post) = post"
    using d pn by (cases post) (auto simp: list_all_iff dropWhile_append2)
  show ?thesis
    by (simp add: match_nct_def b1 lit r1 tw dw len b2)
qed

lemma nct_at_group:
  assumes "nct_at U prev s d"
  shows "4 \<le> length d" "list_all (isdecimal U) d" "set d \<subseteq> set s"
  using assms unfolding nct_at_def by auto

lemma nct_match_group:
  assumes "nct_match U s pre d"
  shows "4 \<le> length d" "list_all (isdecimal U) d" "set d \<subseteq> set s"
  using assms nct_at_group unfolding nct_match_def by fastforce+

lemma search_nct_leftmost:
  assumes ok: "unicode_ok U" and m: "nct_match U s pre d"
    and left: "\<And>pre' d'. nct_match U s pre' d' \<Longrightarrow> length pre \<le> length pre'"
  shows "re_search (match_nct U) None s = Some d"
proof -
  from m obtain rest where s: "s = pre @ rest" and at: "nct_at U (last_cp pre) rest d"
    unfolding nct_match_def by blast
  show ?thesis
  proof (rule re_search_SomeI[OF s])
    show "match_nct U (prev_of None pre) rest = Some d"
      unfolding prev_of_None by (rule match_nct_SomeI[OF ok at])
  next
    fix pre' rest' assume s': "s = pre' @ rest'" and lt: "length pre' < length pre"
    show "match_nct U (prev_of None pre') rest' = None"
    proof (cases "match_nct U (prev_of None pre') rest'")
      case None
      then show ?thesis .
    next
      case (Some d')
      then have "nct_at U (last_cp pre') rest' d'"
        unfolding prev_of_None by (rule match_nct_SomeD)
      with s' have "nct_match U s pre' d'" unfolding nct_match_def by blast
      from left[OF this] lt show ?thesis by simp
    qed
  qed
qed

lemma search_nct_none:
  assumes "\<And>pre d. \<not> nct_match U s pre d"
  shows "re_search (match_nct U) None s = None"
proof (rule re_search_NoneI)
  fix pre rest assume s: "s = pre @ rest"
  show "match_nct U (prev_of None pre) rest = None"
  proof (cases "match_nct U (prev_of None pre) rest")
    case None
    then show ?thesis .
  next
    case (Some d)
    then have "nct_at U (last_cp pre) rest d"
      unfolding prev_of_None by (rule match_nct_SomeD)
    with s have "nct_match U s pre d" unfolding nct_match_def by blast
    with assms show ?thesis by blast
  qed
qed

lemma search_nct_SomeD:
  assumes "re_search (match_nct U) None s = Some d"
  shows "\<exists>pre. nct_match U s pre d"
proof -
  from re_search_SomeD[OF assms] obtain pre rest where "s = pre @ rest"
    "match_nct U (prev_of None pre) rest = Some d" by blast
  then have "nct_match U s pre d"
    unfolding nct_match_def prev_of_None using match_nct_SomeD by blast
  then show ?thesis ..
qed

lemma nct_match_found:
  assumes ok: "unicode_ok U" and m: "nct_match U s pre d"
  shows "re_search (match_nct U) None s \<noteq> None"
proof
  assume n: "re_search (match_nct U) None s = None"
  from m obtain rest where s: "s = pre @ rest" and at: "nct_at U (last_cp pre) rest d"
    unfolding nct_match_def by blast
  from re_search_NoneD[OF n s] match_nct_SomeI[OF ok at] show False
    by (simp add: prev_of_None)
qed

lemma match_digits4_iff:
  "match_digits4 U prev rest = Some m \<longleftrightarrow>
     (\<exists>post. rest = m @ post \<and> length m = 4 \<and> list_all (isdecimal U) m)"
proof
  assume "match_digits4 U prev rest = Some m"
  then have "4 \<le> length rest" "list_all (isdecimal U) (take 4 rest)" "m = take 4 rest"
    by (auto simp: match_digits4_def split: if_splits)
  then have "rest = m @ drop 4 rest \<and> length m = 4 \<and> list_all (isdecimal U) m" by simp
  then show "\<exists>post. rest = m @ post \<and> length m = 4 \<and> list_all (isdecimal U) m" ..
next
  assume "\<exists>post. rest = m @ post \<and> length m = 4 \<and> list_all (isdecimal U) m"
  then show "match_digits4 U prev rest = Some m"
    by (auto simp: match_digits4_def)
qed

lemma match_year_iff:
  "match_year U prev rest = Some m \<longleftrightarrow>
     (\<exists>post. rest = m @ post \<and> length m = 4 \<and>
        (take 2 m = str ''19'' \<or> take 2 m = str ''20'') \<and> list_all (isdecimal U) (drop 2 m) \<and>
        word_boundary U prev (first_cp m) \<and> word_boundary U (last_cp m) (first_cp post))"
  (is "?L \<longleftrightarrow> ?R")
proof
  assume ?L
  then obtain a b c d r where rest: "rest = a # b # c # d # r"
    unfolding match_year_def by (simp split: if_splits list.splits)
  with \<open>?L\<close> have "m = [a, b, c, d]" "word_boundary U prev (Some a)"
    "[a, b] = str ''19'' \<or> [a, b] = str ''20''" "isdecimal U c" "isdecimal U d"
    "word_boundary U (Some d) (first_cp r)"
    by (auto simp: match_year_def first_cp_def split: if_splits)
  with rest have "rest = m @ r \<and> length m = 4 \<and>
        (take 2 m = str ''19'' \<or> take 2 m = str ''20'') \<and> list_all (isdecimal U) (drop 2 m) \<and>
        word_boundary U prev (first_cp m) \<and> word_boundary U (last_cp m) (first_cp r)"
    by (simp add: first_cp_def last_cp_def)
  then show ?R ..
next
  assume ?R
  then obtain post where p: "rest = m @ post" "length m = 4"
    "take 2 m = str ''19'' \<or> take 2 m = str ''20''" "list_all (isdecimal U) (drop 2 m)"
    "word_boundary U prev (first_cp m)" "word_boundary U (last_cp m) (first_cp post)"
    by blast
  from p(2) obtain a b c d where m: "m = [a, b, c, d]"
    by (auto simp: length_Suc_conv eval_nat_numeral)
  with p show ?L
    by (simp add: match_year_def first_cp_def last_cp_def)
qed

lemma search_digits4_leftmost:
  assumes m: "digits4_match U s pre m"
    and left: "\<And>pre' m'. digits4_match U s pre' m' \<Longrightarrow> length pre \<le> length pre'"
  shows "re_search (match_digits4 U) None s = Some m"
proof -
  from m obtain post where s: "s = pre @ (m @ post)" and l: "length m = 4"
    and d: "list_all (isdecimal U) m"
    unfolding digits4_match_def by auto
  show ?thesis
  proof (rule re_search_SomeI[OF s])
    show "match_digits4 U (prev_of None pre) (m @ post) = Some m"
      using l d by (auto simp: match_digits4_iff)
  next
    fix pre' rest' assume s': "s = pre' @ rest'" and lt: "length pre' < length pre"
    show "match_digits4 U (prev_of None pre') rest' = None"
    proof (cases "match_digits4 U (prev_of None pre') rest'")
      case None
      then show ?thesis .
    next
      case (Some m')
      with s' have "digits4_match U s pre' m'"
        unfolding digits4_match_def match_digits4_iff by auto
      from left[OF this] lt show ?thesis by simp
    qed
  qed
qed

lemma search_digits4_none:
  assumes "\<And>pre m. \<not> digits4_match U s pre m"
  shows "re_search (match_digits4 U) None s = None"
proof (rule re_search_NoneI)
  fix pre rest assume s: "s = pre @ rest"
  show "match_digits4 U (prev_of None pre) rest = None"
  proof (cases "match_digits4 U (prev_of None pre) rest")
    case None
    then show ?thesis .
  next
    case (Some m)
    with s have "digits4_match U s pre m"
      unfolding digits4_match_def match_digits4_iff by auto
    with assms show ?thesis by blast
  qed
qed

lemma search_digits4_SomeD:
  assumes "re_search (match_digits4 U) None s = Some m"
  shows "\<exists>pre. digits4_match U s pre m"
proof -
  from re_search_SomeD[OF assms] obtain pre rest where "s = pre @ rest"
    "match_digits4 U (prev_of None pre) rest = Some m" by blast
  then have "digits4_match U s pre m"
    unfolding digits4_match_def match_digits4_iff by auto
  then show ?thesis ..
qed

lemma search_year_leftmost:
  assumes m: "year_match U s pre m"
    and left: "\<And>pre' m'. year_match U s pre' m' \<Longrightarrow> length pre \<le> length pre'"
  shows "re_search (match_year U) None s = Some m"
proof -
  from m obtain post where s: "s = pre @ (m @ post)" and rest: "length m = 4"
    "take 2 m = str ''19'' \<or> take 2 m = str ''20''" "list_all (isdecimal U) (drop 2 m)"
    "word_boundary U (last_cp pre) (first_cp m)" "word_boundary U (last_cp m) (first_cp post)"
    unfolding year_match_def by auto
  show ?thesis
  proof (rule re_search_SomeI[OF s])
    show "match_year U (prev_of None pre) (m @ post) = Some m"
      unfolding match_year_iff prev_of_None using rest by blast
  next
    fix pre' rest' assume s': "s = pre' @ rest'" and lt: "length pre' < length pre"
    show "match_year U (prev_of None pre') rest' = None"
    proof (cases "match_year U (prev_of None pre') rest'")
      case None
      then show ?thesis .
    next
      case (Some m')
      with s' have "year_match U s pre' m'"
        unfolding year_match_def match_year_iff prev_of_None by auto
      from left[OF this] lt show ?thesis by simp
    qed
  qed
qed

lemma search_year_none:
  assumes "\<And>pre m. \<not> year_match U s pre m"
  shows "re_search (match_year U) None s = None"
proof (rule re_search_NoneI)
  fix pre rest assume s: "s = pre @ rest"
  show "match_year U (prev_of None pre) rest = None"
  proof (cases "match_year U (prev_of None pre) rest")
    case None
    then show ?thesis .
  next
    case (Some m)
    with s have "year_match U s pre m"
      unfolding year_match_def match_year_iff prev_of_None by auto
    with assms show ?thesis by blast
  qed
qed



lemma year_match_digits4:
  assumes ok: "unicode_ok U" and "year_match U s pre m"
  shows "digits4_match U s pre m"
proof -
  from assms(2) obtain post where s: "s = pre @ m @ post" and l: "length m = 4"
    and p: "take 2 m = str ''19'' \<or> take 2 m = str ''20''"
    and d: "list_all (isdecimal U) (drop 2 m)"
    unfolding year_match_def by blast
  have "list_all (isdecimal U) (take 2 m)"
    using p ok_isdecimal_ascii[OF ok] by (auto simp: str_def ascii_digit_def)
  with d have "list_all (isdecimal U) (take 2 m @ drop 2 m)" by (simp only: list_all_append)
  then have "list_all (isdecimal U) m" by simp
  with s l show ?thesis unfolding digits4_match_def by blast
qed

section \<open>Text cleanup: lemmas\<close>

lemma isspace_32: "isspace 0x20" by (simp add: isspace_def)
lemma isspace_A0: "isspace 0xA0" by (simp add: isspace_def)

lemma single_spaced_sub_spaces: "single_spaced (sub_spaces s)"
proof (induction s rule: sub_spaces.induct)
  case 1
  then show ?case by simp
next
  case (2 c cs)
  show ?case
  proof (cases "isspace c")
    case True
    have "case sub_spaces (dropWhile isspace cs) of [] \<Rightarrow> True | d # _ \<Rightarrow> \<not> isspace d"
    proof (cases "dropWhile isspace cs")
      case Nil
      then show ?thesis by (simp only: sub_spaces.simps list.case)
    next
      case (Cons d ds)
      then have "\<not> isspace d" by (metis hd_dropWhile list.sel(1) list.distinct(1))
      with Cons show ?thesis by simp
    qed
    with True 2 show ?thesis by simp
  next
    case False
    with 2 show ?thesis by simp
  qed
qed

lemma sub_spaces_id: "single_spaced s \<Longrightarrow> sub_spaces s = s"
proof (induction s rule: sub_spaces.induct)
  case 1
  then show ?case by simp
next
  case (2 c cs)
  show ?case
  proof (cases "isspace c")
    case True
    with 2(3) have c: "c = 0x20" and nx: "case cs of [] \<Rightarrow> True | d # _ \<Rightarrow> \<not> isspace d"
      and ss: "single_spaced cs" by auto
    from nx have "dropWhile isspace cs = cs" by (cases cs) auto
    with 2(1) True ss c show ?thesis by simp
  next
    case False
    with 2 show ?thesis by simp
  qed
qed

lemma single_spaced_append: "single_spaced (xs @ ys) \<Longrightarrow> single_spaced xs \<and> single_spaced ys"
proof (induction xs)
  case Nil
  then show ?case by simp
next
  case (Cons a xs)
  then show ?case by (cases xs) auto
qed

lemma single_spaced_strip: "single_spaced s \<Longrightarrow> single_spaced (strip s)"
proof -
  assume a: "single_spaced s"
  have "s = takeWhile isspace s @ dropWhile isspace s" by simp
  with a have b: "single_spaced (dropWhile isspace s)" by (metis single_spaced_append)
  define t where "t = dropWhile isspace s"
  have "rev t = takeWhile isspace (rev t) @ dropWhile isspace (rev t)" by simp
  then have "t = rev (dropWhile isspace (rev t)) @ rev (takeWhile isspace (rev t))"
    by (metis rev_append rev_rev_ident)
  with b have "single_spaced (rev (dropWhile isspace (rev t)))"
    unfolding t_def[symmetric] by (metis single_spaced_append)
  then show ?thesis by (simp add: strip_def t_def)
qed

lemma trimmed_strip: "trimmed (strip s)"
proof -
  define t where "t = dropWhile isspace s"
  define r where "r = dropWhile isspace (rev t)"
  have st: "strip s = rev r" by (simp add: strip_def t_def r_def)
  show ?thesis
  proof (cases "r = []")
    case True
    with st show ?thesis by (simp add: trimmed_def)
  next
    case False
    then have l: "\<not> isspace (hd r)" unfolding r_def by (metis hd_dropWhile)
    from False have tn: "t \<noteq> []" unfolding r_def by auto
    then have ht: "\<not> isspace (hd t)" unfolding t_def by (metis hd_dropWhile)
    have "rev t = takeWhile isspace (rev t) @ r" by (simp add: r_def)
    then have "t = rev r @ rev (takeWhile isspace (rev t))" by (metis rev_append rev_rev_ident)
    with False have "hd t = hd (rev r)" by (metis hd_append2 rev_is_Nil_conv)
    with ht l False st show ?thesis by (simp add: trimmed_def last_rev)
  qed
qed

lemma strip_id: "trimmed s \<Longrightarrow> strip s = s"
proof (cases "s = []")
  case True
  then show ?thesis by (simp add: strip_def)
next
  case False
  assume "trimmed s"
  with False have h: "\<not> isspace (hd s)" and l: "\<not> isspace (last s)" by (auto simp: trimmed_def)
  from False h have 1: "dropWhile isspace s = s" by (cases s) auto
  from False l have "dropWhile isspace (rev s) = rev s" by (cases "rev s") (auto simp: last_rev hd_rev)
  with 1 show ?thesis by (simp add: strip_def)
qed

lemma set_sub_spaces: "c \<in> set (sub_spaces s) \<Longrightarrow> c = 0x20 \<or> (c \<in> set s \<and> \<not> isspace c)"
proof (induction s rule: sub_spaces.induct)
  case 1
  then show ?case by simp
next
  case (2 a cs)
  then show ?case by (auto split: if_splits dest: set_dropWhileD)
qed

lemma set_strip: "set (strip s) \<subseteq> set s"
  by (auto simp: strip_def dest!: set_dropWhileD)

lemma clean_text_props:
  assumes "clean_text (Some x) = Some s"
  shows "no_invisible s" "single_spaced s" "trimmed s"
proof -
  define t where "t = filter (\<lambda>c. \<not> zero_width c)
     (filter (\<lambda>c. c \<noteq> 0xFEFF) (map (\<lambda>c. if c = 0xA0 then 0x20 else c) x))"
  from assms have s: "s = strip (sub_spaces t)" by (simp add: clean_text_def t_def)
  show "single_spaced s" "trimmed s"
    by (simp_all add: s single_spaced_strip single_spaced_sub_spaces trimmed_strip)
  show "no_invisible s"
    unfolding no_invisible_def
  proof
    fix c assume "c \<in> set s"
    then have "c \<in> set (sub_spaces t)" using set_strip s by auto
    then have "c = 0x20 \<or> (c \<in> set t \<and> \<not> isspace c)" by (rule set_sub_spaces)
    then show "c \<noteq> 0xA0 \<and> c \<noteq> 0xFEFF \<and> \<not> zero_width c"
      using isspace_A0 by (auto simp: t_def zero_width_def)
  qed
qed

lemma clean_text_fixed:
  assumes "no_invisible s" "single_spaced s" "trimmed s"
  shows "clean_text (Some s) = Some s"
proof -
  from assms(1) have 1: "map (\<lambda>c. if c = 0xA0 then 0x20 else c) s = s"
    by (auto simp: no_invisible_def intro: map_idI)
  from assms(1) have 2: "filter (\<lambda>c. c \<noteq> 0xFEFF) s = s"
    by (auto simp: no_invisible_def)
  from assms(1) have 3: "filter (\<lambda>c. \<not> zero_width c) s = s"
    by (auto simp: no_invisible_def)
  show ?thesis
    unfolding clean_text_def Let_def option.case 1 2 3
    by (simp only: sub_spaces_id[OF assms(2)] strip_id[OF assms(3)])
qed

lemma clean_text_idem: "clean_text (clean_text v) = clean_text v"
proof (cases v)
  case None
  then show ?thesis by (simp add: clean_text_def)
next
  case (Some x)
  obtain s where s: "clean_text (Some x) = Some s" by (simp add: clean_text_def)
  from clean_text_props[OF s] have "clean_text (Some s) = Some s" by (rule clean_text_fixed)
  with s Some show ?thesis by simp
qed

section \<open>Identifier canonicalization and year extraction: lemmas\<close>

lemma canonical_nct_fixed_id:
  assumes ok: "unicode_ok U" and len: "4 \<le> length d" and dig: "list_all (isdecimal U) d"
    and vis: "no_invisible d"
  shows "canonical_nct U (Some (str ''NCT'' @ d)) = Some (str ''NCT'' @ d)"
proof -
  let ?s = "str ''NCT'' @ d"
  from len have dne: "d \<noteq> []" by auto
  from dig have nsp: "\<And>c. c \<in> set d \<Longrightarrow> \<not> isspace c"
    using ok_decimal_not_space[OF ok] by (auto simp: list_all_iff)
  have n1: "no_invisible ?s"
    using vis by (auto simp: no_invisible_def str_NCT zero_width_def)
  have sp: "\<And>c. c \<in> set ?s \<Longrightarrow> \<not> isspace c"
    using nsp by (auto simp: str_NCT isspace_def)
  have ss: "\<And>t. (\<And>c. c \<in> set t \<Longrightarrow> \<not> isspace c) \<Longrightarrow> single_spaced t"
  proof -
    fix t show "(\<And>c. c \<in> set t \<Longrightarrow> \<not> isspace c) \<Longrightarrow> single_spaced t"
      by (induction t) auto
  qed
  have n2: "single_spaced ?s" by (rule ss) (rule sp)
  have n3: "trimmed ?s"
    unfolding trimmed_def using sp[of "hd ?s"] sp[of "last ?s"] dne
    by (metis hd_in_set last_in_set)
  have cl: "clean_text (Some ?s) = Some ?s" by (rule clean_text_fixed[OF n1 n2 n3])
  have w78: "isword U 78"
    using ok_alnum_ascii[OF ok, of 78] by (simp add: isword_def ascii_alpha_def)
  have wl: "isword U (last d)"
    using dig dne ok_decimal_word[OF ok] by (auto simp: list_all_iff)
  have "nct_at U None ?s d"
    unfolding nct_at_def
  proof (intro exI conjI)
    show "?s = str ''NCT'' @ [] @ d @ []" by simp
    show "list_all2 (re_ignorecase U) (str ''NCT'') (str ''NCT'')"
      by (simp add: list_all2_same ok_ci_refl[OF ok])
    show "list_all isspace []" by simp
    show "list_all (isdecimal U) d" by (rule dig)
    show "4 \<le> length d" by (rule len)
    show "word_boundary U None (first_cp ?s)"
      using w78 by (simp add: word_boundary_def first_cp_def str_NCT)
    show "word_boundary U (Some (last d)) (first_cp [])"
      using wl by (simp add: word_boundary_def first_cp_def)
  qed
  then have "match_nct U None ?s = Some d" by (rule match_nct_SomeI[OF ok])
  then have "re_search (match_nct U) None ?s = Some d"
    by (simp add: str_NCT)
  with cl show ?thesis by (simp add: canonical_nct_def str_NCT)
qed

lemma api_extract_year_Text:
  "api_extract_year U (Text s) =
     (case re_search (match_digits4 U) None s of Some m \<Rightarrow> Some (py_int U m) | None \<Rightarrow> None)"
  by (simp add: api_extract_year_def)

lemma scraper_extract_year_Some:
  "scraper_extract_year U (Some s) =
     (case re_search (match_year U) None s of
        Some m \<Rightarrow> Some (py_int U m)
      | None \<Rightarrow> (case re_search (match_digits4 U) None s of
                   Some m2 \<Rightarrow> Some (py_int U m2) | None \<Rightarrow> None))"
proof (cases "s = []")
  case True
  then show ?thesis
    by (simp add: scraper_extract_year_def match_year_def match_digits4_def
        word_boundary_def first_cp_def)
next
  case False
  then show ?thesis by (simp add: scraper_extract_year_def)
qed

lemma example_year:
  assumes ok: "unicode_ok U"
  shows "api_extract_year U (Text (str ''Study start: March 2014 (estimated)'')) = Some 2014"
    and "scraper_extract_year U (Some (str ''Study start: March 2014 (estimated)'')) = Some 2014"
  by (simp_all add: api_extract_year_def scraper_extract_year_def str_def match_digits4_def
      match_year_def word_boundary_def first_cp_def py_int_def
      ok_isdecimal_ascii[OF ok] ok_isword_ascii[OF ok] ok_decimal_ascii[OF ok]
      ascii_digit_def ascii_alpha_def)

lemma no_digits_no_digits4:
  assumes "\<forall>c \<in> set s. \<not> isdecimal U c"
  shows "\<not> digits4_match U s pre m"
proof
  assume "digits4_match U s pre m"
  then obtain post where "s = pre @ m @ post" "length m = 4" "list_all (isdecimal U) m"
    unfolding digits4_match_def by blast
  then have "hd m \<in> set s" "isdecimal U (hd m)" by (cases m; simp)+
  with assms show False by blast
qed

section \<open>The pipeline: lemmas\<close>

lemma slice_to_is_take: "\<exists>k. slice_to m xs = take k xs"
  by (auto simp: slice_to_def)

lemma length_slice_to: "0 \<le> m \<Longrightarrow> int (length (slice_to m xs)) \<le> m"
  by (simp add: slice_to_def)

lemma slice_to_Nil: "slice_to m [] = []"
  by (simp add: slice_to_def)


subsection \<open>The pagination loop keeps the collected identifiers distinct\<close>

lemma deduplicated_empty: "deduplicated [] {}"
  by (simp add: deduplicated_def)

lemma deduplicated_snoc:
  assumes "deduplicated pairs seen" "nctId it = Some n" "n \<noteq> []" "n \<notin> seen"
  shows "deduplicated (pairs @ [it]) (insert n seen)"
proof -
  from assms(1) have d: "distinct (map nctId pairs)" and t: "\<forall>c \<in> set pairs. truthy (nctId c)"
    and s: "seen = {n. Some n \<in> nctId ` set pairs}"
    by (simp_all add: deduplicated_def)
  from assms(4) s have "Some n \<notin> nctId ` set pairs" by simp
  with d assms(2) have "distinct (map nctId (pairs @ [it]))" by simp
  moreover from t assms(2,3) have "\<forall>c \<in> set (pairs @ [it]). truthy (nctId c)"
    by (simp add: truthy_def)
  moreover from s assms(2) have "insert n seen = {n. Some n \<in> nctId ` set (pairs @ [it])}"
    by auto
  ultimately show ?thesis by (simp add: deduplicated_def)
qed

lemma collect_page_deduplicated:
  "collect_page m its pairs seen = (pairs', seen') \<Longrightarrow> deduplicated pairs seen
     \<Longrightarrow> deduplicated pairs' seen'"
proof (induction m its pairs seen rule: collect_page.induct)
  case (1 m pairs seen)
  then show ?case by simp
next
  case (2 m it its pairs seen)
  show ?case
  proof (cases "nctId it")
    case None
    with 2 show ?thesis by simp
  next
    case (Some n)
    show ?thesis
    proof (cases "n = [] \<or> n \<in> seen")
      case True
      with 2 Some show ?thesis by simp
    next
      case False
      then have d: "deduplicated (pairs @ [it]) (insert n seen)"
        using deduplicated_snoc[OF "2.prems"(2) Some] by simp
      show ?thesis
      proof (cases "m \<le> int (length (pairs @ [it]))")
        case True
        with "2.prems"(1) Some False d show ?thesis by (simp add: Let_def)
      next
        case stop: False
        with "2.prems"(1) Some False
        have "collect_page m its (pairs @ [it]) (insert n seen) = (pairs', seen')"
          by (simp add: Let_def)
        with "2.IH"(3)[OF Some False refl refl stop _ d] show ?thesis by simp
      qed
    qed
  qed
qed

lemma paginate_deduplicated_aux:
  assumes "paginate U vs m k pairs seen = Some r"
  shows "deduplicated pairs seen \<longrightarrow> (\<forall>ps. r = Inr ps \<longrightarrow> (\<exists>seen'. deduplicated ps seen'))"
proof (rule paginate.raw_induct[where P = "\<lambda>U vs m k pairs seen r.
    deduplicated pairs seen \<longrightarrow> (\<forall>ps. r = Inr ps \<longrightarrow> (\<exists>seen'. deduplicated ps seen'))", OF _ assms])
  fix f U vs m k pairs seen r
  assume IH: "\<And>U vs m k pairs seen r. f U vs m k pairs seen = Some r \<Longrightarrow>
    deduplicated pairs seen \<longrightarrow> (\<forall>ps. r = Inr ps \<longrightarrow> (\<exists>seen'. deduplicated ps seen'))"
  and body: "(if int (length pairs) < m
      then case collect_page m (pairs_from_search_page U (vs k)) pairs seen of
           (pairs', seen') \<Rightarrow>
             if m \<le> int (length pairs') then Some (Inr pairs')
             else case next_button (vs k) of
                  QueryRaises \<Rightarrow> Some (Inl PlaywrightError)
                  | NoButton \<Rightarrow> Some (Inr pairs')
                  | Button aria click_ok \<Rightarrow>
                      if reports_disabled U aria then Some (Inr pairs')
                      else if \<not> click_ok then Some (Inr pairs')
                           else f U vs m (Suc k) pairs' seen'
      else Some (Inr pairs)) = Some r"
  show "deduplicated pairs seen \<longrightarrow> (\<forall>ps. r = Inr ps \<longrightarrow> (\<exists>seen'. deduplicated ps seen'))"
  proof (intro impI allI)
    fix ps assume ded: "deduplicated pairs seen" and r: "r = Inr ps"
    show "\<exists>seen'. deduplicated ps seen'"
    proof (cases "int (length pairs) < m")
      case False
      with body r have "ps = pairs" by simp
      with ded show ?thesis by blast
    next
      case True
      obtain pairs' seen' where cp: "collect_page m (pairs_from_search_page U (vs k)) pairs seen = (pairs', seen')"
        by (cases "collect_page m (pairs_from_search_page U (vs k)) pairs seen")
      from collect_page_deduplicated[OF cp ded] have d: "deduplicated pairs' seen'" .
      show ?thesis
      proof (cases "m \<le> int (length pairs')")
        case True
        with body r \<open>int (length pairs) < m\<close> cp have "ps = pairs'" by simp
        with d show ?thesis by blast
      next
        case False
        show ?thesis
        proof (cases "next_button (vs k)")
          case QueryRaises
          with body r \<open>int (length pairs) < m\<close> cp False show ?thesis by simp
        next
          case NoButton
          with body r \<open>int (length pairs) < m\<close> cp False have "ps = pairs'" by simp
          with d show ?thesis by blast
        next
          case (Button aria ok)
          show ?thesis
          proof (cases "reports_disabled U aria \<or> \<not> ok")
            case True
            with body r \<open>int (length pairs) < m\<close> cp False Button have "ps = pairs'"
              by (auto split: if_splits)
            with d show ?thesis by blast
          next
            case go: False
            with body \<open>int (length pairs) < m\<close> cp False Button
            have "f U vs m (Suc k) pairs' seen' = Some r" by simp
            from IH[OF this] d r show ?thesis by blast
          qed
        qed
      qed
    qed
  qed
qed

lemma paginate_deduplicated:
  assumes "paginate U vs m k pairs seen = Some (Inr ps)" and "deduplicated pairs seen"
  shows "\<exists>seen'. deduplicated ps seen'"
  using paginate_deduplicated_aux[OF assms(1)] assms(2) by blast

lemma paginate_start_distinct:
  assumes "paginate U vs m 0 [] {} = Some (Inr pairs)"
  shows "distinct (map nctId pairs)"
  using paginate_deduplicated[OF assms deduplicated_empty] by (auto simp: deduplicated_def)

lemma paginate_nonpositive:
  "m \<le> 0 \<Longrightarrow> paginate U vs m k [] seen = Some (Inr [])"
  by (subst paginate.simps) simp

lemma collect_page_set:
  "collect_page m its pairs seen = (pairs', seen') \<Longrightarrow> set pairs' \<subseteq> set pairs \<union> set its"
proof (induction m its pairs seen rule: collect_page.induct)
  case (1 m pairs seen)
  then show ?case by simp
next
  case (2 m it its pairs seen)
  show ?case
  proof (cases "nctId it")
    case None
    with 2 show ?thesis by auto
  next
    case (Some n)
    show ?thesis
    proof (cases "n = [] \<or> n \<in> seen")
      case True
      with 2 Some show ?thesis by auto
    next
      case False
      show ?thesis
      proof (cases "m \<le> int (length (pairs @ [it]))")
        case True
        with "2.prems" Some False show ?thesis by (auto simp: Let_def)
      next
        case stop: False
        with "2.prems" Some False
        have "collect_page m its (pairs @ [it]) (insert n seen) = (pairs', seen')"
          by (simp add: Let_def)
        with "2.IH"(3)[OF Some False refl refl stop] show ?thesis by auto
      qed
    qed
  qed
qed

lemma paginate_set_aux:
  assumes "paginate U vs m k pairs seen = Some r"
  shows "\<forall>ps. r = Inr ps \<longrightarrow> set ps \<subseteq> set pairs \<union> (\<Union>j. set (pairs_from_search_page U (vs j)))"
proof (rule paginate.raw_induct[where P = "\<lambda>U vs m k pairs seen r.
    \<forall>ps. r = Inr ps \<longrightarrow> set ps \<subseteq> set pairs \<union> (\<Union>j. set (pairs_from_search_page U (vs j)))", OF _ assms])
  fix f U vs m k pairs seen r
  assume IH: "\<And>U vs m k pairs seen r. f U vs m k pairs seen = Some r \<Longrightarrow>
    \<forall>ps. r = Inr ps \<longrightarrow> set ps \<subseteq> set pairs \<union> (\<Union>j. set (pairs_from_search_page U (vs j)))"
  and body: "(if int (length pairs) < m
      then case collect_page m (pairs_from_search_page U (vs k)) pairs seen of
           (pairs', seen') \<Rightarrow>
             if m \<le> int (length pairs') then Some (Inr pairs')
             else case next_button (vs k) of
                  QueryRaises \<Rightarrow> Some (Inl PlaywrightError)
                  | NoButton \<Rightarrow> Some (Inr pairs')
                  | Button aria click_ok \<Rightarrow>
                      if reports_disabled U aria then Some (Inr pairs')
                      else if \<not> click_ok then Some (Inr pairs')
                           else f U vs m (Suc k) pairs' seen'
      else Some (Inr pairs)) = Some r"
  show "\<forall>ps. r = Inr ps \<longrightarrow> set ps \<subseteq> set pairs \<union> (\<Union>j. set (pairs_from_search_page U (vs j)))"
  proof (intro impI allI)
    fix ps assume r: "r = Inr ps"
    let ?all = "\<Union>j. set (pairs_from_search_page U (vs j))"
    show "set ps \<subseteq> set pairs \<union> ?all"
    proof (cases "int (length pairs) < m")
      case False
      with body r have "ps = pairs" by simp
      then show ?thesis by blast
    next
      case True
      obtain pairs' seen' where cp: "collect_page m (pairs_from_search_page U (vs k)) pairs seen = (pairs', seen')"
        by (cases "collect_page m (pairs_from_search_page U (vs k)) pairs seen")
      from collect_page_set[OF cp] have d: "set pairs' \<subseteq> set pairs \<union> ?all" by blast
      show ?thesis
      proof (cases "m \<le> int (length pairs')")
        case True
        with body r \<open>int (length pairs) < m\<close> cp have "ps = pairs'" by simp
        with d show ?thesis by blast
      next
        case False
        show ?thesis
        proof (cases "next_button (vs k)")
          case QueryRaises
          with body r \<open>int (length pairs) < m\<close> cp False show ?thesis by simp
        next
          case NoButton
          with body r \<open>int (length pairs) < m\<close> cp False have "ps = pairs'" by simp
          with d show ?thesis by blast
        next
          case (Button aria ok)
          show ?thesis
          proof (cases "reports_disabled U aria \<or> \<not> ok")
            case True
            with body r \<open>int (length pairs) < m\<close> cp False Button have "ps = pairs'"
              by (auto split: if_splits)
            with d show ?thesis by blast
          next
            case go: False
            with body \<open>int (length pairs) < m\<close> cp False Button
            have "f U vs m (Suc k) pairs' seen' = Some r" by simp
            from IH[OF this] r have "set ps \<subseteq> set pairs' \<union> ?all" by blast
            with d show ?thesis by blast
          qed
        qed
      qed
    qed
  qed
qed

lemma paginate_start_canonical:
  assumes "paginate U vs m 0 [] {} = Some (Inr pairs)" and "c \<in> set pairs"
  shows "\<exists>v. nctId c = canonical_nct U v"
proof -
  from paginate_set_aux[OF assms(1)] assms(2) obtain j where "c \<in> set (pairs_from_search_page U (vs j))"
    by auto
  then show ?thesis by (auto simp: pairs_from_search_page_def split: if_splits)
qed

lemma paginate_start_truthy:
  assumes "paginate U vs m 0 [] {} = Some (Inr pairs)" and "c \<in> set pairs"
  shows "truthy (nctId c)"
  using paginate_deduplicated[OF assms(1) deduplicated_empty] assms(2)
  by (auto simp: deduplicated_def)

subsection \<open>A run returns when some rendering ends the pagination\<close>

lemma paginate_returns:
  assumes "\<not> advances U (vs j)" and "k \<le> j"
  shows "\<exists>r. paginate U vs m k pairs seen = Some r"
  using assms(2)
proof (induction "j - k" arbitrary: k pairs seen)
  case 0
  then have kj: "k = j" by simp
  obtain pairs' seen' where cp: "collect_page m (pairs_from_search_page U (vs k)) pairs seen = (pairs', seen')"
    by (cases "collect_page m (pairs_from_search_page U (vs k)) pairs seen")
  from assms(1) kj have "\<not> advances U (vs k)" by simp
  then show ?case
    by (subst paginate.simps)
      (auto simp: cp advances_def split: next_control.splits)
next
  case (Suc n)
  obtain pairs' seen' where cp: "collect_page m (pairs_from_search_page U (vs k)) pairs seen = (pairs', seen')"
    by (cases "collect_page m (pairs_from_search_page U (vs k)) pairs seen")
  from Suc.hyps(2) Suc.prems have "n = j - Suc k" "Suc k \<le> j" by simp_all
  from Suc.hyps(1)[OF this] obtain r where "paginate U vs m (Suc k) pairs' seen' = Some r"
    by blast
  then show ?case
    by (subst paginate.simps) (auto simp: cp split: next_control.splits)
qed

lemma scrape_returns:
  assumes "\<not> advances U (views S j)"
  shows "\<exists>r. scrape U S m = Some r"
proof -
  have "\<exists>r. paginate U (views S) m 0 [] {} = Some r"
    using assms by (rule paginate_returns) simp
  then obtain r where "paginate U (views S) m 0 [] {} = Some r" ..
  then show ?thesis
    by (auto simp: scrape_def split: sum.splits)
qed

subsection \<open>The detail loop emits the candidates that pass its tests, in order\<close>

lemma visit_result:
  "visit U dt its recs out = Inr (recs', out') \<Longrightarrow>
     map nctId recs' = map nctId recs @ map nctId (filter (emits U dt) its) \<and>
     (\<forall>n u. WARN_TITLE_NONE n u \<in> set out' \<longrightarrow>
        WARN_TITLE_NONE n u \<in> set out \<or>
        (\<exists>c \<in> set its. emits U dt c \<and> nctId c = Some n \<and> url c = Some u))"
proof (induction its arbitrary: recs out)
  case Nil
  then show ?case by simp
next
  case (Cons it its)
  show ?case
  proof (cases "emits U dt it")
    case False
    have "visit U dt its recs out = Inr (recs', out')"
    proof (cases "nctId it")
      case None
      with Cons.prems show ?thesis by simp
    next
      case n: (Some n)
      show ?thesis
      proof (cases "url it")
        case None
        with Cons.prems n show ?thesis by simp
      next
        case u: (Some u)
        show ?thesis
        proof (cases "n = [] \<or> u = []")
          case True
          with Cons.prems n u show ?thesis by auto
        next
          case ne: False
          show ?thesis
          proof (cases "dt u")
            case NavigationRaises
            with Cons.prems n u ne show ?thesis by simp
          next
            case (Loaded dv)
            with False n u ne have "title_excluded U (fst (extract_title_and_start_year U dv))"
              by (simp add: emits_def)
            with Cons.prems n u ne Loaded show ?thesis
              by (simp add: title_excluded_def split: prod.splits)
          qed
        qed
      qed
    qed
    from Cons.IH[OF this] False show ?thesis by auto
  next
    case True
    then obtain n u dv where n: "nctId it = Some n" and u: "url it = Some u"
      and ne: "n \<noteq> []" "u \<noteq> []" and dv: "dt u = Loaded dv"
      and keep: "\<not> title_excluded U (fst (extract_title_and_start_year U dv))"
      by (auto simp: emits_def split: option.splits detail_result.splits)
    obtain bt sy where ex: "extract_title_and_start_year U dv = (bt, sy)"
      by (cases "extract_title_and_start_year U dv")
    define rec where "rec = \<lparr>nctId = nctId it, briefTitle = py_or bt (briefTitle it),
                              country = country it, startYear = sy\<rparr>"
    define out1 where "out1 = (if \<not> truthy (py_or bt (briefTitle it))
                               then out @ [WARN_TITLE_NONE n u] else out)"
    from keep ex have "\<not> (case bt of Some t \<Rightarrow> t \<noteq> [] \<and> py_in (str ''unknown status'') (str_lower U t)
                             | None \<Rightarrow> False)"
      by (simp add: title_excluded_def)
    with Cons.prems n u ne dv ex
    have "visit U dt its (recs @ [rec]) out1 = Inr (recs', out')"
      by (simp add: rec_def out1_def Let_def)
    from Cons.IH[OF this]
    have 1: "map nctId recs' = map nctId (recs @ [rec]) @ map nctId (filter (emits U dt) its)"
      and 2: "\<forall>n' u'. WARN_TITLE_NONE n' u' \<in> set out' \<longrightarrow>
        WARN_TITLE_NONE n' u' \<in> set out1 \<or>
        (\<exists>c \<in> set its. emits U dt c \<and> nctId c = Some n' \<and> url c = Some u')"
      by blast+
    have "nctId rec = nctId it" by (simp add: rec_def)
    with 1 True have A: "map nctId recs' = map nctId recs @ map nctId (filter (emits U dt) (it # its))"
      by simp
    have B: "\<forall>n' u'. WARN_TITLE_NONE n' u' \<in> set out' \<longrightarrow>
        WARN_TITLE_NONE n' u' \<in> set out \<or>
        (\<exists>c \<in> set (it # its). emits U dt c \<and> nctId c = Some n' \<and> url c = Some u')"
    proof (intro allI impI)
      fix n' u' assume "WARN_TITLE_NONE n' u' \<in> set out'"
      with 2 have "WARN_TITLE_NONE n' u' \<in> set out1 \<or>
        (\<exists>c \<in> set its. emits U dt c \<and> nctId c = Some n' \<and> url c = Some u')" by blast
      moreover have "WARN_TITLE_NONE n' u' \<in> set out1 \<Longrightarrow>
         WARN_TITLE_NONE n' u' \<in> set out \<or> (n' = n \<and> u' = u)"
        by (auto simp: out1_def split: if_splits)
      ultimately show "WARN_TITLE_NONE n' u' \<in> set out \<or>
        (\<exists>c \<in> set (it # its). emits U dt c \<and> nctId c = Some n' \<and> url c = Some u')"
        using True n u by auto
    qed
    from A B show ?thesis by blast
  qed
qed

lemma scrape_InrD:
  assumes "scrape U S m = Some (Inr r)"
  obtains pairs recs where "paginate U (views S) m 0 [] {} = Some (Inr pairs)"
    and "visit U (detail S) (slice_to m pairs) [] [] = Inr (recs, printed r)"
    and "artifact r = slice_to m recs" and "returned r = int (length (artifact r))"
proof -
  from assms have o: "opens S" by (auto simp: scrape_def split: if_splits)
  from assms o obtain pairs where p: "paginate U (views S) m 0 [] {} = Some (Inr pairs)"
    by (auto simp: scrape_def split: option.splits sum.splits)
  from assms o p obtain recs out where v: "visit U (detail S) (slice_to m pairs) [] [] = Inr (recs, out)"
    by (auto simp: scrape_def split: sum.splits)
  from assms o p v have "r = \<lparr>returned = int (length (slice_to m recs)),
      artifact = slice_to m recs, printed = out\<rparr>"
    by (auto simp: scrape_def split: if_splits)
  then have "printed r = out" "artifact r = slice_to m recs" "returned r = int (length (artifact r))"
    by simp_all
  with p v that show ?thesis by blast
qed

lemma artifact_ids:
  assumes "paginate U (views S) m 0 [] {} = Some (Inr pairs)"
    and "visit U (detail S) (slice_to m pairs) [] [] = Inr (recs, out)"
    and "t \<in> set (slice_to m recs)"
  shows "\<exists>c \<in> set pairs. emits U (detail S) c \<and> nctId c = nctId t"
proof -
  from visit_result[OF assms(2)]
  have "map nctId recs = map nctId (filter (emits U (detail S)) (slice_to m pairs))" by simp
  moreover from assms(3) slice_to_is_take[of m recs] have "t \<in> set recs"
    by (auto dest: in_set_takeD)
  then have "nctId t \<in> set (map nctId recs)" by simp
  ultimately have "nctId t \<in> nctId ` set (filter (emits U (detail S)) (slice_to m pairs))" by simp
  then obtain c where "c \<in> set (slice_to m pairs)" "emits U (detail S) c" "nctId c = nctId t"
    by auto
  moreover from this(1) slice_to_is_take[of m pairs] have "c \<in> set pairs"
    by (auto dest: in_set_takeD)
  ultimately show ?thesis by blast
qed

lemma not_emitted_absent:
  assumes r: "scrape U S m = Some (Inr r)"
    and p: "paginate U (views S) m 0 [] {} = Some (Inr pairs)"
    and c: "c \<in> set pairs" and n: "\<not> emits U (detail S) c"
  shows "nctId c \<notin> nctId ` set (artifact r)"
proof
  assume "nctId c \<in> nctId ` set (artifact r)"
  then obtain t where t: "t \<in> set (artifact r)" "nctId t = nctId c" by auto
  from scrape_InrD[OF r] p obtain recs where
    v: "visit U (detail S) (slice_to m pairs) [] [] = Inr (recs, printed r)"
    and a: "artifact r = slice_to m recs" by (metis option.inject sum.inject(2))
  from artifact_ids[OF p v] t a obtain c' where c': "c' \<in> set pairs" "emits U (detail S) c'"
    "nctId c' = nctId c" by metis
  from paginate_start_distinct[OF p] have "inj_on nctId (set pairs)"
    by (simp add: distinct_map)
  with c c' have "c' = c" by (auto dest: inj_onD)
  with c'(2) n show False by simp
qed


lemma canonical_nct_forms:
  assumes ok: "unicode_ok U" and "canonical_nct U v = Some n"
  shows "(\<exists>d. n = str ''NCT'' @ d \<and> 4 \<le> length d \<and> list_all (isdecimal U) d) \<or>
         (n \<noteq> [] \<and> clean_text (Some n) = Some n \<and> (\<forall>pre d. \<not> nct_match U n pre d))"
proof -
  from assms(2) obtain x where v: "v = Some x"
    by (cases v) (auto simp: canonical_nct_def clean_text_def)
  obtain s where s: "clean_text (Some x) = Some s" by (simp add: clean_text_def)
  with assms(2) v have ne: "s \<noteq> []" by (auto simp: canonical_nct_def split: if_splits)
  show ?thesis
  proof (cases "re_search (match_nct U) None s")
    case None
    with assms(2) v s ne have "n = s" by (simp add: canonical_nct_def)
    moreover have "clean_text (Some s) = Some s" by (rule clean_text_fixed[OF clean_text_props[OF s]])
    moreover have "\<forall>pre d. \<not> nct_match U s pre d" using nct_match_found[OF ok] None by blast
    ultimately show ?thesis using ne by blast
  next
    case (Some d)
    with assms(2) v s ne have "n = str ''NCT'' @ d" by (simp add: canonical_nct_def)
    moreover from search_nct_SomeD[OF Some] obtain pre where "nct_match U s pre d" ..
    note nct_match_group[OF this]
    ultimately show ?thesis by blast
  qed
qed

lemma artifact_id_forms:
  assumes ok: "unicode_ok U" and r: "scrape U S m = Some (Inr r)" and t: "t \<in> set (artifact r)"
  shows "\<exists>n. nctId t = Some n \<and>
     ((\<exists>d. n = str ''NCT'' @ d \<and> 4 \<le> length d \<and> list_all (isdecimal U) d) \<or>
      (n \<noteq> [] \<and> clean_text (Some n) = Some n \<and> (\<forall>pre d. \<not> nct_match U n pre d)))"
proof -
  from scrape_InrD[OF r] obtain pairs recs where
    p: "paginate U (views S) m 0 [] {} = Some (Inr pairs)"
    and v: "visit U (detail S) (slice_to m pairs) [] [] = Inr (recs, printed r)"
    and a: "artifact r = slice_to m recs" by blast
  from artifact_ids[OF p v] t a obtain c where c: "c \<in> set pairs" "nctId c = nctId t" by metis
  from paginate_start_truthy[OF p c(1)] obtain n where n: "nctId c = Some n"
    by (auto simp: truthy_def split: option.splits)
  from paginate_start_canonical[OF p c(1)] n obtain v where "canonical_nct U v = Some n" by auto
  from canonical_nct_forms[OF ok this] n c(2) show ?thesis by auto
qed

subsection \<open>Runs on the small site\<close>

lemmas demo_defs = demo_raw_def demo_views_def demo_page_def demo_detail_def demo_site_def
  demo_candidate_def demo_trial_def pairs_from_search_page_def meta_content_def truthy_def
  py_or_def slice_to_def reports_disabled_def extract_title_and_start_year_def
  strip_site_suffix_def scrape_def

lemma demo_page0:
  "pairs_from_search_page ascii_tables (demo_views 0) =
     [demo_candidate ''NCT00000001'' (Some ''Trial A'') (Some ''/study/1''),
      demo_candidate ''NCT00000002'' None None,
      demo_candidate ''NCT00000001'' (Some ''Trial A'') (Some ''/study/1'')]"
  by (simp add: demo_defs eval_defs)

lemma demo_page1:
  "pairs_from_search_page ascii_tables (demo_views (Suc 0)) =
     [demo_candidate ''NCT00000003'' (Some ''Trial C (Unknown status)'') (Some ''/study/3''),
      demo_candidate ''NCT00000004'' (Some ''Trial D'') (Some ''/study/4'')]"
  by (simp add: demo_defs eval_defs)

lemma demo_next:
  "next_button (demo_views 0) = Button (Attr None) True"
  "next_button (demo_views (Suc 0)) = NoButton"
  by (simp_all add: demo_views_def)

lemma demo_paginate_2:
  "paginate ascii_tables demo_views 2 0 [] {} =
     Some (Inr [demo_candidate ''NCT00000001'' (Some ''Trial A'') (Some ''/study/1''),
                demo_candidate ''NCT00000002'' None None])"
  apply (subst paginate.simps)
  apply (simp add: demo_page0 demo_candidate_def str_def)
  done

lemma demo_paginate_10:
  "paginate ascii_tables demo_views 10 0 [] {} =
     Some (Inr [demo_candidate ''NCT00000001'' (Some ''Trial A'') (Some ''/study/1''),
                demo_candidate ''NCT00000002'' None None,
                demo_candidate ''NCT00000003'' (Some ''Trial C (Unknown status)'') (Some ''/study/3''),
                demo_candidate ''NCT00000004'' (Some ''Trial D'') (Some ''/study/4'')])"
  apply (subst paginate.simps)
  apply (simp add: demo_page0 demo_candidate_def str_def demo_next reports_disabled_def truthy_def)
  apply (subst paginate.simps)
  apply (simp add: demo_page1 demo_candidate_def str_def demo_next)
  done

lemma demo_visit_2:
  "visit ascii_tables demo_detail
     [demo_candidate ''NCT00000001'' (Some ''Trial A'') (Some ''/study/1''),
      demo_candidate ''NCT00000002'' None None] [] [] =
   Inr ([demo_trial ''NCT00000001'' ''Trial A'' (Some 2014)], [])"
  by (simp add: demo_defs eval_defs)

lemma demo_visit_10:
  "visit ascii_tables demo_detail
     [demo_candidate ''NCT00000001'' (Some ''Trial A'') (Some ''/study/1''),
      demo_candidate ''NCT00000002'' None None,
      demo_candidate ''NCT00000003'' (Some ''Trial C (Unknown status)'') (Some ''/study/3''),
      demo_candidate ''NCT00000004'' (Some ''Trial D'') (Some ''/study/4'')] [] [] =
   Inr ([demo_trial ''NCT00000001'' ''Trial A'' (Some 2014),
         demo_trial ''NCT00000003'' ''Trial C (Unknown status)'' None], [])"
  by (simp add: demo_defs eval_defs)

lemma demo_scrape_2:
  "scrape ascii_tables demo_site 2 =
     Some (Inr \<lparr>returned = 1, artifact = [demo_trial ''NCT00000001'' ''Trial A'' (Some 2014)],
                printed = []\<rparr>)"
  by (simp add: scrape_def demo_site_def demo_paginate_2 slice_to_def demo_visit_2 del: visit.simps)

lemma demo_scrape_10:
  "scrape ascii_tables demo_site 10 =
     Some (Inr \<lparr>returned = 2,
                artifact = [demo_trial ''NCT00000001'' ''Trial A'' (Some 2014),
                            demo_trial ''NCT00000003'' ''Trial C (Unknown status)'' None],
                printed = []\<rparr>)"
  by (simp add: scrape_def demo_site_def demo_paginate_10 slice_to_def demo_visit_10 del: visit.simps)

lemma demo_scrape_neg:
  "scrape ascii_tables demo_site (- 1) = Some (Inr \<lparr>returned = 0, artifact = [], printed = []\<rparr>)"
  by (simp add: scrape_def demo_site_def paginate_nonpositive slice_to_def)

section \<open>Country canonicalization: lemmas\<close>


section \<open>Properties\<close>

subsection \<open>Process orchestrator\<close>

text \<open>
  C1. A one-second budget against the silent ten-second sleeper: the budget is only
  checked after a line has been read, so the loop body never runs; the call returns the
  child's own exit code 0 after ten seconds, with an empty log and no kill line.
\<close>

theorem run_playwright_subprocess_sleeper:
  "run_playwright_subprocess cmd sleeper (Some 1) = Some (0, 10, [])"
  by (simp add: run_playwright_subprocess_def sleeper_def)

subsection \<open>Identifier canonicalization\<close>

text \<open>
  C2, as the code has it. \<open>_canonical_nct\<close> cleans its input first: the cleaned text
  \<open>s\<close> holds none of the characters the cleanup removes, its white space is single spaces
  between other characters, and it is trimmed. An absent input and an input whose cleaned
  text is empty give absent. Otherwise, when the pattern \<open>\bNCT\s*(\d{4,})\b\<close>
  (case-insensitive: NCT at a word boundary, optional white space, four or more digits, a
  word boundary) matches the cleaned text, the result is \<open>NCT\<close> followed by the digits of
  the leftmost match; when it matches nowhere, the result is the cleaned text itself.
  Consequently every \<open>nctId\<close> a run writes is either \<open>NCT\<close> with at least four digits
  or a non-empty cleaned text without such a match.
\<close>

theorem canonical_nct_spec:
  assumes "unicode_ok U" and "clean_text (Some x) = Some s"
  shows "canonical_nct U None = None \<and>
    no_invisible s \<and> single_spaced s \<and> trimmed s \<and>
    (s = [] \<longrightarrow> canonical_nct U (Some x) = None) \<and>
    (s \<noteq> [] \<and> (\<forall>pre d. \<not> nct_match U s pre d) \<longrightarrow> canonical_nct U (Some x) = Some s) \<and>
    (\<forall>pre d. nct_match U s pre d \<and> (\<forall>pre' d'. nct_match U s pre' d' \<longrightarrow> length pre \<le> length pre')
       \<longrightarrow> canonical_nct U (Some x) = Some (str ''NCT'' @ d) \<and> 4 \<le> length d
           \<and> list_all (isdecimal U) d) \<and>
    (\<forall>S m r t. scrape U S m = Some (Inr r) \<and> t \<in> set (artifact r) \<longrightarrow>
       (\<exists>n. nctId t = Some n \<and>
          ((\<exists>d. n = str ''NCT'' @ d \<and> 4 \<le> length d \<and> list_all (isdecimal U) d) \<or>
           (n \<noteq> [] \<and> clean_text (Some n) = Some n \<and> (\<forall>pre d. \<not> nct_match U n pre d)))))"
proof (intro conjI impI allI)
  show "canonical_nct U None = None" by (simp add: canonical_nct_def clean_text_def)
  show "no_invisible s" "single_spaced s" "trimmed s"
    by (rule clean_text_props[OF assms(2)])+
next
  assume "s = []"
  with assms(2) show "canonical_nct U (Some x) = None" by (simp add: canonical_nct_def)
next
  assume a: "s \<noteq> [] \<and> (\<forall>pre d. \<not> nct_match U s pre d)"
  then have "re_search (match_nct U) None s = None" by (intro search_nct_none) blast
  with a assms(2) show "canonical_nct U (Some x) = Some s" by (simp add: canonical_nct_def)
next
  fix pre d
  assume a: "nct_match U s pre d \<and> (\<forall>pre' d'. nct_match U s pre' d' \<longrightarrow> length pre \<le> length pre')"
  then have f: "re_search (match_nct U) None s = Some d"
    by (intro search_nct_leftmost[OF assms(1), of s pre d]) blast+
  from a nct_match_group[of U s pre d] have g: "4 \<le> length d" "list_all (isdecimal U) d" "set d \<subseteq> set s"
    by blast+
  then have "s \<noteq> []" by auto
  with f assms(2) show "canonical_nct U (Some x) = Some (str ''NCT'' @ d)"
    by (simp add: canonical_nct_def)
  from g show "4 \<le> length d" "list_all (isdecimal U) d" by blast+
next
  fix S m r t
  assume "scrape U S m = Some (Inr r) \<and> t \<in> set (artifact r)"
  then show "\<exists>n. nctId t = Some n \<and>
          ((\<exists>d. n = str ''NCT'' @ d \<and> 4 \<le> length d \<and> list_all (isdecimal U) d) \<or>
           (n \<noteq> [] \<and> clean_text (Some n) = Some n \<and> (\<forall>pre d. \<not> nct_match U n pre d)))"
    using artifact_id_forms[OF assms(1)] by blast
qed

text \<open>The theorem at \<open>"  nct  01234567 foo"\<close>, which matches, and at \<open>"NCT12"\<close>, which
  has too few digits and is returned as it is.\<close>

theorem canonical_nct_spec_witness:
  "unicode_ok ascii_tables \<and>
   clean_text (Some (str ''  nct  01234567 foo'')) = Some (str ''nct 01234567 foo'') \<and>
   nct_match ascii_tables (str ''nct 01234567 foo'') [] (str ''01234567'') \<and>
   canonical_nct ascii_tables (Some (str ''  nct  01234567 foo'')) = Some (str ''NCT01234567'') \<and>
   clean_text (Some (str ''NCT12'')) = Some (str ''NCT12'') \<and>
   (\<forall>pre d. \<not> nct_match ascii_tables (str ''NCT12'') pre d) \<and>
   canonical_nct ascii_tables (Some (str ''NCT12'')) = Some (str ''NCT12'')"
proof -
  have c1: "clean_text (Some (str ''  nct  01234567 foo'')) = Some (str ''nct 01234567 foo'')"
    by (simp add: eval_defs)
  have "nct_at ascii_tables None (str ''nct 01234567 foo'') (str ''01234567'')"
    unfolding nct_at_def
    by (rule exI[of _ "str ''nct''"], rule exI[of _ "str '' ''"], rule exI[of _ "str '' foo''"])
      (simp add: eval_defs)
  then have m1: "nct_match ascii_tables (str ''nct 01234567 foo'') [] (str ''01234567'')"
    unfolding nct_match_def by (simp add: last_cp_def)
  have c2: "clean_text (Some (str ''NCT12'')) = Some (str ''NCT12'')"
    by (simp add: eval_defs)
  have "re_search (match_nct ascii_tables) None (str ''NCT12'') = None"
    by (simp add: eval_defs)
  with nct_match_found[OF ascii_tables_ok]
  have m2: "\<forall>pre d. \<not> nct_match ascii_tables (str ''NCT12'') pre d" by blast
  have ne: "str ''NCT12'' \<noteq> []" by (simp add: str_def)
  note spec1 = canonical_nct_spec[OF ascii_tables_ok c1, THEN conjunct2, THEN conjunct2,
      THEN conjunct2, THEN conjunct2, THEN conjunct2, THEN conjunct2, THEN conjunct1,
      rule_format, of "[]" "str ''01234567''"]
  note spec2 = canonical_nct_spec[OF ascii_tables_ok c2, THEN conjunct2, THEN conjunct2,
      THEN conjunct2, THEN conjunct2, THEN conjunct2, THEN conjunct1, rule_format]
  from spec1 m1
  have r1: "canonical_nct ascii_tables (Some (str ''  nct  01234567 foo'')) = Some (str ''NCT'' @ str ''01234567'')"
    by simp
  from spec2 m2 ne
  have r2: "canonical_nct ascii_tables (Some (str ''NCT12'')) = Some (str ''NCT12'')"
    by simp
  from r1 have "canonical_nct ascii_tables (Some (str ''  nct  01234567 foo'')) = Some (str ''NCT01234567'')"
    by (simp add: str_def)
  with ascii_tables_ok c1 m1 c2 m2 r2 show ?thesis by blast
qed

text \<open>
  C2 as stated fails: \<open>nct123\<close> and \<open>xNCT12345\<close> both contain NCT (in some case)
  followed by digits, and both come back unchanged, not as \<open>NCT123\<close> and \<open>NCT12345\<close>;
  the returned identifiers are not of the form NCT-then-digits.
\<close>

theorem canonical_nct_counterexample:
  "canonical_nct ascii_tables (Some (str ''nct123'')) = Some (str ''nct123'') \<and>
   str ''nct123'' \<noteq> str ''NCT123'' \<and>
   canonical_nct ascii_tables (Some (str ''xNCT12345'')) = Some (str ''xNCT12345'') \<and>
   str ''xNCT12345'' \<noteq> str ''NCT12345''"
  by (simp add: eval_defs)

subsection \<open>The two year extractions compared\<close>




subsection \<open>Bound on the number of records\<close>

text \<open>
  C4, as the code has it. For every run that returns, the returned count is the number of
  records written; for a requested maximum \<open>m \<ge> 0\<close> it is at most \<open>m\<close>, and for a
  negative \<open>m\<close> nothing is collected and the count is 0.
\<close>

theorem scrape_count_bounded:
  assumes "scrape U S m = Some (Inr r)"
  shows "returned r = int (length (artifact r)) \<and>
         (0 \<le> m \<longrightarrow> returned r \<le> m) \<and> (m < 0 \<longrightarrow> returned r = 0)"
proof -
  from scrape_InrD[OF assms] obtain pairs recs where
    p: "paginate U (views S) m 0 [] {} = Some (Inr pairs)"
    and v: "visit U (detail S) (slice_to m pairs) [] [] = Inr (recs, printed r)"
    and a: "artifact r = slice_to m recs" and n: "returned r = int (length (artifact r))"
    by blast
  have "returned r \<le> m" if "0 \<le> m"
    using n a length_slice_to[OF that] by simp
  moreover have "returned r = 0" if "m < 0"
  proof -
    from that have "paginate U (views S) m 0 [] {} = Some (Inr [])"
      by (intro paginate_nonpositive) simp
    with p have "pairs = []" by simp
    with v have "recs = []" by (simp add: slice_to_Nil)
    with a n show ?thesis by (simp add: slice_to_Nil)
  qed
  ultimately show ?thesis using n by blast
qed

text \<open>The theorem at the small site with maximum 2: one record is written.\<close>

theorem scrape_count_bounded_witness:
  "scrape ascii_tables demo_site 2 =
     Some (Inr \<lparr>returned = 1, artifact = [demo_trial ''NCT00000001'' ''Trial A'' (Some 2014)],
                printed = []\<rparr>) \<and>
   (0::int) \<le> 2 \<and> (1::int) \<le> 2"
  using scrape_count_bounded[OF demo_scrape_2] demo_scrape_2 by simp

text \<open>
  C4 as stated fails for a negative maximum: with \<open>max_results = -1\<close> the run writes no
  record and returns 0, which exceeds the requested maximum.
\<close>

theorem scrape_count_counterexample:
  "scrape ascii_tables demo_site (- 1) = Some (Inr \<lparr>returned = 0, artifact = [], printed = []\<rparr>) \<and>
   \<not> (0::int) \<le> - 1"
  using demo_scrape_neg by simp

subsection \<open>Distinct identifiers\<close>

text \<open>
  C5. Within one run the \<open>nctId\<close> values of the records written are pairwise distinct,
  and none of them is absent or empty.
\<close>

theorem scrape_ids_distinct:
  assumes "scrape U S m = Some (Inr r)"
  shows "distinct (map nctId (artifact r)) \<and> (\<forall>t \<in> set (artifact r). truthy (nctId t))"
proof
  from scrape_InrD[OF assms] obtain pairs recs where
    p: "paginate U (views S) m 0 [] {} = Some (Inr pairs)"
    and v: "visit U (detail S) (slice_to m pairs) [] [] = Inr (recs, printed r)"
    and a: "artifact r = slice_to m recs"
    by blast
  from slice_to_is_take obtain k where k: "slice_to m pairs = take k pairs" by blast
  from slice_to_is_take obtain j where j: "slice_to m recs = take j recs" by blast
  from paginate_start_distinct[OF p] have "distinct (map nctId (take k pairs))"
    by (simp add: take_map[symmetric] distinct_take)
  then have "distinct (map nctId (filter (emits U (detail S)) (take k pairs)))"
    by (rule distinct_map_filter)
  with visit_result[OF v] k have "distinct (map nctId recs)" by simp
  then have "distinct (take j (map nctId recs))" by (rule distinct_take)
  with a j show "distinct (map nctId (artifact r))" by (simp add: take_map)
  show "\<forall>t \<in> set (artifact r). truthy (nctId t)"
  proof
    fix t assume "t \<in> set (artifact r)"
    with artifact_ids[OF p v] a obtain c where "c \<in> set pairs" "nctId c = nctId t" by metis
    with paginate_start_truthy[OF p] show "truthy (nctId t)" by metis
  qed
qed

text \<open>The theorem at the small site, whose first rendering lists trial 1 twice.\<close>

theorem scrape_ids_distinct_witness:
  "scrape ascii_tables demo_site 10 =
     Some (Inr \<lparr>returned = 2,
                artifact = [demo_trial ''NCT00000001'' ''Trial A'' (Some 2014),
                            demo_trial ''NCT00000003'' ''Trial C (Unknown status)'' None],
                printed = []\<rparr>) \<and>
   distinct [Some (str ''NCT00000001''), Some (str ''NCT00000003'')] \<and>
   truthy (Some (str ''NCT00000001'')) \<and> truthy (Some (str ''NCT00000003''))"
  using scrape_ids_distinct[OF demo_scrape_10] demo_scrape_10 by (simp add: demo_trial_def)

subsection \<open>Status filter\<close>




subsection \<open>Year extraction\<close>

text \<open>
  C7, as the code has it. On a string \<open>s\<close>, the API client's \<open>_extract_year\<close> returns
  the value of the leftmost four decimal digits in a row, and absent when there are none.
  The pipeline's \<open>_extract_year\<close> returns the value of the leftmost stand-alone token
  19xx or 20xx when there is one; when there is none it returns the value of the leftmost four
  digits in a row, and absent when there are none. Both return absent on a string without
  digits and 2014 on \<open>"Study start: March 2014 (estimated)"\<close>.
\<close>

theorem extract_year_spec:
  assumes ok: "unicode_ok U"
  shows
   "(\<forall>pre m. digits4_match U s pre m \<and> (\<forall>pre' m'. digits4_match U s pre' m' \<longrightarrow> length pre \<le> length pre')
       \<longrightarrow> api_extract_year U (Text s) = Some (py_int U m)) \<and>
    ((\<forall>pre m. \<not> digits4_match U s pre m) \<longrightarrow>
       api_extract_year U (Text s) = None \<and> scraper_extract_year U (Some s) = None) \<and>
    (\<forall>pre m. year_match U s pre m \<and> (\<forall>pre' m'. year_match U s pre' m' \<longrightarrow> length pre \<le> length pre')
       \<longrightarrow> scraper_extract_year U (Some s) = Some (py_int U m)) \<and>
    (\<forall>pre m. (\<forall>pre' m'. \<not> year_match U s pre' m') \<and> digits4_match U s pre m \<and>
        (\<forall>pre' m'. digits4_match U s pre' m' \<longrightarrow> length pre \<le> length pre')
       \<longrightarrow> scraper_extract_year U (Some s) = Some (py_int U m)) \<and>
    ((\<forall>c \<in> set s. \<not> isdecimal U c) \<longrightarrow>
       api_extract_year U (Text s) = None \<and> scraper_extract_year U (Some s) = None) \<and>
    api_extract_year U (Text (str ''Study start: March 2014 (estimated)'')) = Some 2014 \<and>
    scraper_extract_year U (Some (str ''Study start: March 2014 (estimated)'')) = Some 2014"
proof -
  have A: "api_extract_year U (Text s) = Some (py_int U m)"
    if "digits4_match U s pre m" "\<forall>pre' m'. digits4_match U s pre' m' \<longrightarrow> length pre \<le> length pre'"
    for pre m
    using search_digits4_leftmost[of U s pre m] that by (simp add: api_extract_year_Text)
  have N: "api_extract_year U (Text s) = None \<and> scraper_extract_year U (Some s) = None"
    if n: "\<forall>pre m. \<not> digits4_match U s pre m"
  proof -
    from n have 1: "re_search (match_digits4 U) None s = None" by (intro search_digits4_none) blast
    from n year_match_digits4[OF ok] have "\<And>pre m. \<not> year_match U s pre m" by blast
    then have "re_search (match_year U) None s = None" by (rule search_year_none)
    with 1 show ?thesis by (simp add: api_extract_year_Text scraper_extract_year_Some)
  qed
  have B: "scraper_extract_year U (Some s) = Some (py_int U m)"
    if "year_match U s pre m" "\<forall>pre' m'. year_match U s pre' m' \<longrightarrow> length pre \<le> length pre'"
    for pre m
    using search_year_leftmost[of U s pre m] that by (simp add: scraper_extract_year_Some)
  have C: "scraper_extract_year U (Some s) = Some (py_int U m)"
    if "\<forall>pre' m'. \<not> year_match U s pre' m'" "digits4_match U s pre m"
      "\<forall>pre' m'. digits4_match U s pre' m' \<longrightarrow> length pre \<le> length pre'"
    for pre m
  proof -
    from that(1) have "re_search (match_year U) None s = None" by (intro search_year_none) blast
    moreover have "re_search (match_digits4 U) None s = Some m"
      using search_digits4_leftmost[of U s pre m] that by blast
    ultimately show ?thesis by (simp add: scraper_extract_year_Some)
  qed
  have D: "api_extract_year U (Text s) = None \<and> scraper_extract_year U (Some s) = None"
    if "\<forall>c \<in> set s. \<not> isdecimal U c"
    using N no_digits_no_digits4[OF that] by blast
  from A N B C D example_year[OF ok] show ?thesis by blast
qed

text \<open>The theorem at \<open>"2014-03"\<close>, where the token 2014 opens the string.\<close>

theorem extract_year_spec_witness:
  "unicode_ok ascii_tables \<and>
   year_match ascii_tables (str ''2014-03'') [] (str ''2014'') \<and>
   digits4_match ascii_tables (str ''2014-03'') [] (str ''2014'') \<and>
   py_int ascii_tables (str ''2014'') = 2014 \<and>
   scraper_extract_year ascii_tables (Some (str ''2014-03'')) = Some 2014 \<and>
   api_extract_year ascii_tables (Text (str ''2014-03'')) = Some 2014"
proof -
  have s: "str ''2014-03'' = [] @ str ''2014'' @ str ''-03''" by (simp add: str_def)
  have y: "year_match ascii_tables (str ''2014-03'') [] (str ''2014'')"
    unfolding year_match_def by (rule exI[of _ "str ''-03''"]) (simp add: eval_defs)
  have d: "digits4_match ascii_tables (str ''2014-03'') [] (str ''2014'')"
    unfolding digits4_match_def by (rule exI[of _ "str ''-03''"]) (simp add: eval_defs)
  have p: "py_int ascii_tables (str ''2014'') = 2014" by (simp add: eval_defs)
  note t = extract_year_spec[OF ascii_tables_ok, of "str ''2014-03''"]
  from t y have "scraper_extract_year ascii_tables (Some (str ''2014-03'')) = Some (py_int ascii_tables (str ''2014''))"
    by (metis length_0_conv le0)
  moreover from t d have "api_extract_year ascii_tables (Text (str ''2014-03'')) = Some (py_int ascii_tables (str ''2014''))"
    by (metis length_0_conv le0)
  ultimately show ?thesis using ascii_tables_ok y d p by simp
qed

text \<open>
  C7 as stated fails for the pipeline: in \<open>"0001 1999"\<close> the first four-digit token is
  \<open>0001\<close>, with value 1, and the pipeline returns 1999.
\<close>

theorem extract_year_first_token_counterexample:
  "digits4_match ascii_tables (str ''0001 1999'') [] (str ''0001'') \<and>
   py_int ascii_tables (str ''0001'') = 1 \<and>
   scraper_extract_year ascii_tables (Some (str ''0001 1999'')) = Some 1999"
proof -
  have "str ''0001 1999'' = [] @ str ''0001'' @ str '' 1999''" by (simp add: str_def)
  then have "digits4_match ascii_tables (str ''0001 1999'') [] (str ''0001'')"
    unfolding digits4_match_def by (intro exI conjI) (assumption, simp_all add: eval_defs)
  then show ?thesis by (simp add: eval_defs)
qed

subsection \<open>Idempotence of identifier canonicalization\<close>

text \<open>
  C8. Identifier canonicalization is idempotent: applying \<open>_canonical_nct\<close> to its own
  result gives that result again, for every input, absent or text.
\<close>

theorem canonical_nct_idempotent:
  assumes ok: "unicode_ok U"
  shows "canonical_nct U (canonical_nct U v) = canonical_nct U v"
proof (cases v)
  case None
  then show ?thesis by (simp add: canonical_nct_def clean_text_def)
next
  case (Some x)
  obtain s where s: "clean_text (Some x) = Some s" by (simp add: clean_text_def)
  note props = clean_text_props[OF s]
  show ?thesis
  proof (cases "s = []")
    case True
    with s Some show ?thesis by (simp add: canonical_nct_def clean_text_def)
  next
    case False
    show ?thesis
    proof (cases "re_search (match_nct U) None s")
      case None
      with s False Some have c: "canonical_nct U v = Some s" by (simp add: canonical_nct_def)
      have "clean_text (Some s) = Some s" by (rule clean_text_fixed[OF props])
      with None False have "canonical_nct U (Some s) = Some s" by (simp add: canonical_nct_def)
      with c show ?thesis by simp
    next
      case (Some d)
      with s False \<open>v = Some x\<close> have c: "canonical_nct U v = Some (str ''NCT'' @ d)"
        by (simp add: canonical_nct_def)
      from search_nct_SomeD[OF Some] obtain pre where "nct_match U s pre d" ..
      note g = nct_match_group[OF this]
      from g(3) props(1) have "no_invisible d" by (auto simp: no_invisible_def)
      from canonical_nct_fixed_id[OF ok g(1) g(2) this] c show ?thesis by simp
    qed
  qed
qed

text \<open>The theorem at \<open>"  nct  01234567 foo"\<close>: canonicalized twice it is \<open>NCT01234567\<close>.\<close>

theorem canonical_nct_idempotent_witness:
  "unicode_ok ascii_tables \<and>
   canonical_nct ascii_tables (canonical_nct ascii_tables (Some (str ''  nct  01234567 foo'')))
     = Some (str ''NCT01234567'')"
proof -
  have "canonical_nct ascii_tables (canonical_nct ascii_tables (Some (str ''  nct  01234567 foo'')))
      = canonical_nct ascii_tables (Some (str ''  nct  01234567 foo''))"
    by (rule canonical_nct_idempotent[OF ascii_tables_ok])
  also have "\<dots> = Some (str ''NCT01234567'')" by (simp add: eval_defs)
  finally show ?thesis using ascii_tables_ok by simp
qed

subsection \<open>Country canonicalization\<close>




subsection \<open>Candidates without URL\<close>

text \<open>
  C10. A collected candidate with an identifier but no URL (absent or empty) leaves no
  trace: no record written carries its identifier and no diagnostic line names it. And
  the count can stay below the number of collected candidates although the site offered as
  many as were asked for: at the small site, with maximum 2, two candidates are collected
  and one record is written.
\<close>

theorem scrape_drops_candidate_without_url:
  "(scrape U S m = Some (Inr r) \<and> paginate U (views S) m 0 [] {} = Some (Inr pairs) \<and>
    c \<in> set pairs \<and> nctId c = Some n \<and> \<not> truthy (url c)
    \<longrightarrow> (\<forall>t \<in> set (artifact r). nctId t \<noteq> Some n) \<and>
        (\<forall>u. WARN_TITLE_NONE n u \<notin> set (printed r))) \<and>
   (\<exists>S' m' pairs' r'. scrape ascii_tables S' m' = Some (Inr r') \<and>
      paginate ascii_tables (views S') m' 0 [] {} = Some (Inr pairs') \<and>
      int (length pairs') = m' \<and> returned r' < m')"
proof (intro conjI impI)
  assume a: "scrape U S m = Some (Inr r) \<and> paginate U (views S) m 0 [] {} = Some (Inr pairs) \<and>
    c \<in> set pairs \<and> nctId c = Some n \<and> \<not> truthy (url c)"
  then have r: "scrape U S m = Some (Inr r)"
    and p: "paginate U (views S) m 0 [] {} = Some (Inr pairs)"
    and c: "c \<in> set pairs" and n: "nctId c = Some n" and u: "\<not> truthy (url c)"
    by blast+
  from u have ne: "\<not> emits U (detail S) c"
    by (auto simp: emits_def truthy_def split: option.splits)
  from not_emitted_absent[OF r p c ne] n
  show "\<forall>t \<in> set (artifact r). nctId t \<noteq> Some n" by force
  show "\<forall>u. WARN_TITLE_NONE n u \<notin> set (printed r)"
  proof (intro allI notI)
    fix u' assume w: "WARN_TITLE_NONE n u' \<in> set (printed r)"
    from scrape_InrD[OF r] p obtain recs where
      v: "visit U (detail S) (slice_to m pairs) [] [] = Inr (recs, printed r)"
      by (metis option.inject sum.inject(2))
    from visit_result[OF v] w obtain c' where c': "c' \<in> set (slice_to m pairs)"
      "emits U (detail S) c'" "nctId c' = Some n" by auto
    from c'(1) slice_to_is_take[of m pairs] have "c' \<in> set pairs" by (auto dest: in_set_takeD)
    moreover from paginate_start_distinct[OF p] have "inj_on nctId (set pairs)"
      by (simp add: distinct_map)
    ultimately have "c' = c" using c n c'(3) inj_onD[of nctId "set pairs" c' c] by simp
    with c'(2) ne show False by simp
  qed
next
  have "paginate ascii_tables (views demo_site) 2 0 [] {} =
     Some (Inr [demo_candidate ''NCT00000001'' (Some ''Trial A'') (Some ''/study/1''),
                demo_candidate ''NCT00000002'' None None])"
    using demo_paginate_2 by (simp add: demo_site_def)
  with demo_scrape_2 show "\<exists>S' m' pairs' r'. scrape ascii_tables S' m' = Some (Inr r') \<and>
      paginate ascii_tables (views S') m' 0 [] {} = Some (Inr pairs') \<and>
      int (length pairs') = m' \<and> returned r' < m'"
    by (intro exI[of _ demo_site] exI[of _ 2] exI conjI) (assumption, assumption, simp_all)
qed

text \<open>The theorem at trial 2 of the small site, whose list element has no link.\<close>

theorem scrape_drops_candidate_without_url_witness:
  "scrape ascii_tables demo_site 2 =
     Some (Inr \<lparr>returned = 1, artifact = [demo_trial ''NCT00000001'' ''Trial A'' (Some 2014)],
                printed = []\<rparr>) \<and>
   paginate ascii_tables (views demo_site) 2 0 [] {} =
     Some (Inr [demo_candidate ''NCT00000001'' (Some ''Trial A'') (Some ''/study/1''),
                demo_candidate ''NCT00000002'' None None]) \<and>
   nctId (demo_candidate ''NCT00000002'' None None) = Some (str ''NCT00000002'') \<and>
   \<not> truthy (url (demo_candidate ''NCT00000002'' None None)) \<and>
   nctId (demo_trial ''NCT00000001'' ''Trial A'' (Some 2014)) \<noteq> Some (str ''NCT00000002'')"
proof -
  let ?c = "demo_candidate ''NCT00000002'' None None"
  let ?r = "\<lparr>returned = 1, artifact = [demo_trial ''NCT00000001'' ''Trial A'' (Some 2014)],
                printed = []\<rparr>"
  have p: "paginate ascii_tables (views demo_site) 2 0 [] {} =
     Some (Inr [demo_candidate ''NCT00000001'' (Some ''Trial A'') (Some ''/study/1''), ?c])"
    using demo_paginate_2 by (simp add: demo_site_def)
  have n: "nctId ?c = Some (str ''NCT00000002'')" and u: "\<not> truthy (url ?c)"
    by (simp_all add: demo_candidate_def truthy_def)
  have "\<forall>t \<in> set (artifact ?r). nctId t \<noteq> Some (str ''NCT00000002'')"
    using scrape_drops_candidate_without_url[of ascii_tables demo_site 2 ?r
        "[demo_candidate ''NCT00000001'' (Some ''Trial A'') (Some ''/study/1''), ?c]"
        ?c "str ''NCT00000002''"]
      demo_scrape_2 p n u by simp
  then have "nctId (demo_trial ''NCT00000001'' ''Trial A'' (Some 2014)) \<noteq> Some (str ''NCT00000002'')"
    by simp
  with demo_scrape_2 p n u show ?thesis by blast
qed

end
